theory Spec2Isabelle
  imports Complex_Main "HOL-Library.List_Lexorder" "HOL-Library.Product_Lexorder"
begin

section \<open>Python values used by standard\_name\_helper.py\<close>

text \<open>
  The script is written for Python 2: \<^verbatim>\<open>dict.keys()\<close> results are concatenated with
  \<^verbatim>\<open>+\<close> (lists), the keys of a dictionary are renamed while iterating over
  \<^verbatim>\<open>keys()\<close>, and \<^verbatim>\<open>input\<close> is expected to yield a number that can be a member of
  a \<^verbatim>\<open>range\<close>. The model follows these semantics. Names are byte strings; a change record
  is the tuple \<^verbatim>\<open>(old, new)\<close>, and a string is true exactly when it is not empty.
\<close>

datatype py_error = IndexError | ValueError | EOFError

datatype pyval = IntV int | StrV string

type_synonym change = "string \<times> string"

definition truthy :: "string \<Rightarrow> bool" where
  "truthy s = (s \<noteq> [])"

definition py_range :: "nat \<Rightarrow> pyval list" where
  "py_range n = map (\<lambda>i. IntV (int i)) [0..<n]"

section \<open>get\_choice\<close>

text \<open>
  \<^verbatim>\<open>choice = -999; while choice not in choices: choice = input(...); return choice\<close>.
  The operator's entries are the list \<open>stdin\<close> of the values that \<^verbatim>\<open>input\<close> returns, one
  for each prompt; reading past its end is Python's EOFError. The function returns the
  choice and the entries not yet read.
\<close>

fun get_choice_loop :: "pyval list \<Rightarrow> pyval \<Rightarrow> pyval list \<Rightarrow> py_error + (pyval \<times> pyval list)" where
  "get_choice_loop choices choice [] =
     (if choice \<notin> set choices then Inl EOFError else Inr (choice, []))"
| "get_choice_loop choices choice (v # stdin) =
     (if choice \<notin> set choices then get_choice_loop choices v stdin
      else Inr (choice, v # stdin))"

definition get_choice :: "pyval list \<Rightarrow> pyval list \<Rightarrow> py_error + (pyval \<times> pyval list)" where
  "get_choice choices stdin = get_choice_loop choices (IntV (- 999)) stdin"

section \<open>parse\_change\_file\<close>

text \<open>
  The three counters every result carries: records with both fields set, records with
  only \<open>new\<close> set, records with only \<open>old\<close> set.
\<close>

definition n_replacements :: "change list \<Rightarrow> nat" where
  "n_replacements cs = length [x \<leftarrow> cs. truthy (fst x) \<and> truthy (snd x)]"

definition n_adds :: "change list \<Rightarrow> nat" where
  "n_adds cs = length [x \<leftarrow> cs. \<not> truthy (fst x) \<and> truthy (snd x)]"

definition n_removals :: "change list \<Rightarrow> nat" where
  "n_removals cs = length [x \<leftarrow> cs. truthy (fst x) \<and> \<not> truthy (snd x)]"

text \<open>The diagnostic printed for a change that is ignored.\<close>

definition ignore_message :: "change \<Rightarrow> string" where
  "ignore_message c =
     ''The change '' @ fst c @ '' -> '' @ snd c @ '' cannot be implemented because '' @ fst c @
     '' is not in the current host/physics metadata. Ignoring this change.''"

text \<open>
  The validation loop. \<open>host\<close> and \<open>physics\<close> are the key lists of the two metadata
  dictionaries; the state is the list of kept changes and the lines printed so far.
\<close>

fun validate_changes ::
  "string list \<Rightarrow> string list \<Rightarrow> change list \<Rightarrow> change list \<times> string list
     \<Rightarrow> change list \<times> string list" where
  "validate_changes host physics [] st = st"
| "validate_changes host physics (change # rest) (std_name_changes, printed) =
     (if (truthy (fst change) \<and> truthy (snd change)) \<and> fst change \<notin> set (host @ physics)
      then validate_changes host physics rest (std_name_changes, printed @ [ignore_message change])
      else validate_changes host physics rest (std_name_changes @ [change], printed))"

record parse_result =
  applied :: "change list"
  replacements :: nat
  adds :: nat
  removals :: nat
  diagnostics :: "string list"

definition parse_change_file :: "change list \<Rightarrow> string list \<Rightarrow> string list \<Rightarrow> parse_result" where
  "parse_change_file std_name_changes_from_file host physics =
     (let (std_name_changes, printed) =
            validate_changes host physics std_name_changes_from_file ([], [])
      in \<lparr> applied = std_name_changes,
           replacements = n_replacements std_name_changes,
           adds = n_adds std_name_changes,
           removals = n_removals std_name_changes,
           diagnostics = printed \<rparr>)"

section \<open>difflib: SequenceMatcher.ratio and get\_close\_matches\<close>

text \<open>
  The script calls \<^verbatim>\<open>difflib.get_close_matches\<close> of the Python standard library. The
  definitions of this section follow CPython's \<^verbatim>\<open>difflib.py\<close>: \<^verbatim>\<open>SequenceMatcher\<close> with
  \<^verbatim>\<open>isjunk=None\<close> and \<^verbatim>\<open>autojunk=True\<close>, sequence \<open>a\<close> the candidate and sequence \<open>b\<close>
  the word. Scores are kept as exact fractions (numerator, denominator) instead of
  doubles; the two agree on every comparison as long as the strings are shorter than about
  \<open>10\<^sup>7\<close> characters.
\<close>

fun indices_of :: "'a \<Rightarrow> 'a list \<Rightarrow> nat \<Rightarrow> nat list" where
  "indices_of elt [] j = []"
| "indices_of elt (x # xs) j =
     (if x = elt then j # indices_of elt xs (Suc j) else indices_of elt xs (Suc j))"

text \<open>
  \<^verbatim>\<open>__chain_b\<close>: \<open>b2j\<close> maps an element to the ascending list of its positions in \<open>b\<close>; with
  at least 200 elements in \<open>b\<close>, an element occurring more than \<open>n // 100 + 1\<close> times is
  "popular" and loses its entry.
\<close>

definition b2j :: "'a list \<Rightarrow> 'a \<Rightarrow> nat list" where
  "b2j b elt =
     (let idxs = indices_of elt b 0
      in if 200 \<le> length b \<and> length b div 100 + 1 < length idxs then [] else idxs)"

fun j2len_get :: "(nat \<times> nat) list \<Rightarrow> nat \<Rightarrow> nat" where
  "j2len_get [] j = 0"
| "j2len_get ((j', k) # m) j = (if j' = j then k else j2len_get m j)"

text \<open>
  The inner loop of \<^verbatim>\<open>find_longest_match\<close> for one \<open>i\<close>: over the positions \<open>j\<close> of
  \<open>a[i]\<close> in \<open>b\<close>, skipping \<open>j < blo\<close> and stopping at \<open>j \<ge> bhi\<close>.
\<close>

fun flm_row ::
  "nat \<Rightarrow> nat \<Rightarrow> nat \<Rightarrow> (nat \<times> nat) list \<Rightarrow> nat list
     \<Rightarrow> (nat \<times> nat) list \<times> nat \<times> nat \<times> nat \<Rightarrow> (nat \<times> nat) list \<times> nat \<times> nat \<times> nat" where
  "flm_row i blo bhi j2len [] st = st"
| "flm_row i blo bhi j2len (j # js) (newj2len, besti, bestj, bestsize) =
     (if j < blo then flm_row i blo bhi j2len js (newj2len, besti, bestj, bestsize)
      else if bhi \<le> j then (newj2len, besti, bestj, bestsize)
      else (let k = (if j = 0 then 0 else j2len_get j2len (j - 1)) + 1
            in if bestsize < k
               then flm_row i blo bhi j2len js ((j, k) # newj2len, i + 1 - k, j + 1 - k, k)
               else flm_row i blo bhi j2len js ((j, k) # newj2len, besti, bestj, bestsize)))"

function flm_rows ::
  "'a list \<Rightarrow> 'a list \<Rightarrow> nat \<Rightarrow> nat \<Rightarrow> nat \<Rightarrow> nat
     \<Rightarrow> (nat \<times> nat) list \<times> nat \<times> nat \<times> nat \<Rightarrow> nat \<times> nat \<times> nat" where
  "flm_rows a b ahi blo bhi i (j2len, besti, bestj, bestsize) =
     (if i < ahi
      then flm_rows a b ahi blo bhi (Suc i)
             (flm_row i blo bhi j2len (b2j b (a ! i)) ([], besti, bestj, bestsize))
      else (besti, bestj, bestsize))"
  by pat_completeness auto
termination
  by (relation "measure (\<lambda>(a, b, ahi, blo, bhi, i, st). ahi - i)") auto

text \<open>
  The two loops that extend the match over equal elements on both sides. No element is
  junk (\<^verbatim>\<open>isjunk\<close> is \<^verbatim>\<open>None\<close>), so the two further loops of the library, which extend over
  junk only, never run.
\<close>

function extend_left :: "'a list \<Rightarrow> 'a list \<Rightarrow> nat \<Rightarrow> nat \<Rightarrow> nat \<times> nat \<times> nat \<Rightarrow> nat \<times> nat \<times> nat" where
  "extend_left a b alo blo (besti, bestj, bestsize) =
     (if alo < besti \<and> blo < bestj \<and> a ! (besti - 1) = b ! (bestj - 1)
      then extend_left a b alo blo (besti - 1, bestj - 1, bestsize + 1)
      else (besti, bestj, bestsize))"
  by pat_completeness auto
termination
  by (relation "measure (\<lambda>(a, b, alo, blo, besti, bestj, bestsize). besti)") auto

function extend_right :: "'a list \<Rightarrow> 'a list \<Rightarrow> nat \<Rightarrow> nat \<Rightarrow> nat \<times> nat \<times> nat \<Rightarrow> nat \<times> nat \<times> nat" where
  "extend_right a b ahi bhi (besti, bestj, bestsize) =
     (if besti + bestsize < ahi \<and> bestj + bestsize < bhi
         \<and> a ! (besti + bestsize) = b ! (bestj + bestsize)
      then extend_right a b ahi bhi (besti, bestj, bestsize + 1)
      else (besti, bestj, bestsize))"
  by pat_completeness auto
termination
  by (relation "measure (\<lambda>(a, b, ahi, bhi, besti, bestj, bestsize). ahi - (besti + bestsize))") auto

definition find_longest_match ::
  "'a list \<Rightarrow> 'a list \<Rightarrow> nat \<Rightarrow> nat \<Rightarrow> nat \<Rightarrow> nat \<Rightarrow> nat \<times> nat \<times> nat" where
  "find_longest_match a b alo ahi blo bhi =
     extend_right a b ahi bhi
       (extend_left a b alo blo (flm_rows a b ahi blo bhi alo ([], alo, blo, 0)))"

subsection \<open>The longest match lies inside the window\<close>

lemma j2len_get_bound:
  "\<forall>p \<in> set m. snd p \<le> c \<Longrightarrow> j2len_get m j \<le> c"
  by (induction m) auto

lemma flm_row_inv:
  assumes "flm_row i blo bhi j2len js (new, bi, bj, bs) = (new', bi', bj', bs')"
    and "\<forall>p \<in> set j2len. snd p \<le> i - alo" and "alo \<le> i"
    and "\<forall>p \<in> set new. snd p \<le> Suc i - alo"
    and "alo \<le> bi" and "bi + bs \<le> Suc i"
  shows "(\<forall>p \<in> set new'. snd p \<le> Suc i - alo) \<and> alo \<le> bi' \<and> bi' + bs' \<le> Suc i"
  using assms
proof (induction js arbitrary: new bi bj bs)
  case Nil
  then show ?case by simp
next
  case (Cons j js)
  let ?k = "(if j = 0 then 0 else j2len_get j2len (j - 1)) + 1"
  have kb: "?k \<le> Suc i - alo"
    using j2len_get_bound [OF Cons.prems(2), of "j - 1"] Cons.prems(3) by auto
  show ?case
  proof (cases "j < blo")
    case True
    with Cons show ?thesis by simp
  next
    case nlo: False
    show ?thesis
    proof (cases "bhi \<le> j")
      case True
      with nlo Cons.prems show ?thesis by simp
    next
      case False
      show ?thesis
      proof (cases "bs < ?k")
        case True
        with nlo False Cons.prems(1)
        have run: "flm_row i blo bhi j2len js ((j, ?k) # new, i + 1 - ?k, j + 1 - ?k, ?k) = (new', bi', bj', bs')"
          by (simp add: Let_def)
        show ?thesis
        proof (rule Cons.IH [OF run Cons.prems(2) Cons.prems(3)])
          show "\<forall>p \<in> set ((j, ?k) # new). snd p \<le> Suc i - alo"
            using kb Cons.prems(4) by simp
          show "alo \<le> i + 1 - ?k" using kb Cons.prems(3) by linarith
          show "i + 1 - ?k + ?k \<le> Suc i" using kb by linarith
        qed
      next
        case nb: False
        with nlo False Cons.prems(1)
        have run: "flm_row i blo bhi j2len js ((j, ?k) # new, bi, bj, bs) = (new', bi', bj', bs')"
          by (simp add: Let_def)
        show ?thesis
        proof (rule Cons.IH [OF run Cons.prems(2) Cons.prems(3)])
          show "\<forall>p \<in> set ((j, ?k) # new). snd p \<le> Suc i - alo"
            using kb Cons.prems(4) by simp
        qed (use Cons.prems in simp_all)
      qed
    qed
  qed
qed

lemma flm_rows_inv:
  assumes "flm_rows a b ahi blo bhi i (j2len, bi, bj, bs) = (bi', bj', bs')"
    and "\<forall>p \<in> set j2len. snd p \<le> i - alo" and "alo \<le> i" and "i \<le> ahi"
    and "alo \<le> bi" and "bi + bs \<le> i"
  shows "alo \<le> bi' \<and> bi' + bs' \<le> ahi"
  using assms
proof (induction a b ahi blo bhi i "(j2len, bi, bj, bs)" arbitrary: j2len bi bj bs
    rule: flm_rows.induct)
  case (1 a b ahi blo bhi i j2len bi bj bs)
  show ?case
  proof (cases "i < ahi")
    case False
    with "1.prems" show ?thesis by simp
  next
    case True
    obtain new' ci cj cs where row:
      "flm_row i blo bhi j2len (b2j b (a ! i)) ([], bi, bj, bs) = (new', ci, cj, cs)"
      by (metis prod_cases4)
    have inv: "(\<forall>p \<in> set new'. snd p \<le> Suc i - alo) \<and> alo \<le> ci \<and> ci + cs \<le> Suc i"
      by (rule flm_row_inv [OF row "1.prems"(2) "1.prems"(3)]) (use "1.prems" in simp_all)
    from True row "1.prems"(1)
    have run: "flm_rows a b ahi blo bhi (Suc i) (new', ci, cj, cs) = (bi', bj', bs')"
      by simp
    show ?thesis
      by (rule "1.hyps" [OF True row run]) (use inv True "1.prems" in simp_all)
  qed
qed

lemma extend_left_inv:
  "extend_left a b alo blo (bi, bj, bs) = (bi', bj', bs') \<Longrightarrow> alo \<le> bi
     \<Longrightarrow> alo \<le> bi' \<and> bi' + bs' = bi + bs"
proof (induction a b alo blo "(bi, bj, bs)" arbitrary: bi bj bs rule: extend_left.induct)
  case (1 a b alo blo bi bj bs)
  show ?case
  proof (cases "alo < bi \<and> blo < bj \<and> a ! (bi - 1) = b ! (bj - 1)")
    case True
    with "1.prems" have "extend_left a b alo blo (bi - 1, bj - 1, bs + 1) = (bi', bj', bs')"
      by simp
    moreover from True have "alo \<le> bi - 1" by auto
    ultimately have "alo \<le> bi' \<and> bi' + bs' = bi - 1 + (bs + 1)"
      by (rule "1.hyps" [OF True])
    with True show ?thesis by simp
  next
    case False
    with "1.prems" show ?thesis by auto
  qed
qed

lemma extend_right_inv:
  "extend_right a b ahi bhi (bi, bj, bs) = (bi', bj', bs') \<Longrightarrow> bi + bs \<le> ahi
     \<Longrightarrow> bi' = bi \<and> bi' + bs' \<le> ahi"
proof (induction a b ahi bhi "(bi, bj, bs)" arbitrary: bi bj bs rule: extend_right.induct)
  case (1 a b ahi bhi bi bj bs)
  show ?case
  proof (cases "bi + bs < ahi \<and> bj + bs < bhi \<and> a ! (bi + bs) = b ! (bj + bs)")
    case True
    with "1.prems" have "extend_right a b ahi bhi (bi, bj, bs + 1) = (bi', bj', bs')"
      by simp
    from "1.hyps" [OF True this] True show ?thesis by simp
  next
    case False
    with "1.prems" show ?thesis by auto
  qed
qed

lemma find_longest_match_window:
  assumes "find_longest_match a b alo ahi blo bhi = (i, j, k)" and "alo \<le> ahi"
  shows "alo \<le> i \<and> i + k \<le> ahi"
proof -
  obtain i1 j1 k1 where r1: "flm_rows a b ahi blo bhi alo ([], alo, blo, 0) = (i1, j1, k1)"
    by (metis prod_cases3)
  obtain i2 j2 k2 where r2: "extend_left a b alo blo (i1, j1, k1) = (i2, j2, k2)"
    by (metis prod_cases3)
  from assms(1) r1 r2 have r3: "extend_right a b ahi bhi (i2, j2, k2) = (i, j, k)"
    by (simp add: find_longest_match_def)
  have "alo \<le> i1 \<and> i1 + k1 \<le> ahi"
    by (rule flm_rows_inv [OF r1]) (use assms(2) in simp_all)
  with extend_left_inv [OF r2] have "alo \<le> i2 \<and> i2 + k2 \<le> ahi" by simp
  with extend_right_inv [OF r3] show ?thesis by simp
qed

lemma find_longest_match_empty_window:
  "\<not> alo \<le> ahi \<Longrightarrow> find_longest_match a b alo ahi blo bhi = (alo, blo, 0)"
  by (simp add: find_longest_match_def)

lemma nonempty_match_window:
  assumes "(i, j, k) = find_longest_match a b alo ahi blo bhi" and "k \<noteq> 0"
  shows "alo \<le> i \<and> i + k \<le> ahi"
proof (cases "alo \<le> ahi")
  case True
  from find_longest_match_window [OF assms(1) [symmetric] True] show ?thesis .
next
  case False
  from find_longest_match_empty_window [OF False, of a b blo bhi] assms show ?thesis by simp
qed

text \<open>
  \<^verbatim>\<open>get_matching_blocks\<close> splits the window around the longest match and repeats on both
  sides; \<^verbatim>\<open>ratio\<close> only needs the sum of the block sizes.
\<close>

function matching_size :: "'a list \<Rightarrow> 'a list \<Rightarrow> nat \<Rightarrow> nat \<Rightarrow> nat \<Rightarrow> nat \<Rightarrow> nat" where
  "matching_size a b alo ahi blo bhi =
     (case find_longest_match a b alo ahi blo bhi of
        (i, j, k) \<Rightarrow>
          if k = 0 then 0
          else k + (if alo < i \<and> blo < j then matching_size a b alo i blo j else 0)
                 + (if i + k < ahi \<and> j + k < bhi then matching_size a b (i + k) ahi (j + k) bhi else 0))"
  by pat_completeness auto
termination
proof (relation "measure (\<lambda>(a, b, alo, ahi, blo, bhi). ahi - alo)")
  show "wf (measure (\<lambda>(a, b, alo, ahi, blo, bhi). ahi - alo))" by simp
next
  fix a b :: "'a list" and alo ahi blo bhi i y j k
  assume "(i, y) = find_longest_match a b alo ahi blo bhi" and "(j, k) = y" and "k \<noteq> 0"
    and "alo < i \<and> blo < j"
  then show "((a, b, alo, i, blo, j), (a, b, alo, ahi, blo, bhi))
      \<in> measure (\<lambda>(a, b, alo, ahi, blo, bhi). ahi - alo)"
    using nonempty_match_window [of i j k a b alo ahi blo bhi] by auto
next
  fix a b :: "'a list" and alo ahi blo bhi i y j k
  assume "(i, y) = find_longest_match a b alo ahi blo bhi" and "(j, k) = y" and "k \<noteq> 0"
    and "i + k < ahi \<and> j + k < bhi"
  then show "((a, b, i + k, ahi, j + k, bhi), (a, b, alo, ahi, blo, bhi))
      \<in> measure (\<lambda>(a, b, alo, ahi, blo, bhi). ahi - alo)"
    using nonempty_match_window [of i j k a b alo ahi blo bhi] by auto
qed

type_synonym score = "nat \<times> nat"

definition calculate_ratio :: "nat \<Rightarrow> nat \<Rightarrow> score" where
  "calculate_ratio matches len = (if len \<noteq> 0 then (2 * matches, len) else (1, 1))"

definition ratio :: "'a list \<Rightarrow> 'a list \<Rightarrow> score" where
  "ratio a b =
     calculate_ratio (matching_size a b 0 (length a) 0 (length b)) (length a + length b)"

definition score_le :: "score \<Rightarrow> score \<Rightarrow> bool" where
  "score_le s t = (fst s * snd t \<le> fst t * snd s)"

definition score_less :: "score \<Rightarrow> score \<Rightarrow> bool" where
  "score_less s t = (fst s * snd t < fst t * snd s)"

text \<open>Python's order on strings: lexicographic on the character codes.\<close>

fun str_less :: "string \<Rightarrow> string \<Rightarrow> bool" where
  "str_less [] [] = False"
| "str_less [] (y # ys) = True"
| "str_less (x # xs) [] = False"
| "str_less (x # xs) (y # ys) =
     (if (of_char x :: nat) < of_char y then True
      else if (of_char y :: nat) < of_char x then False
      else str_less xs ys)"

text \<open>Python's order on the tuples \<^verbatim>\<open>(score, x)\<close>.\<close>

definition entry_less :: "score \<times> string \<Rightarrow> score \<times> string \<Rightarrow> bool" where
  "entry_less e f =
     (score_less (fst e) (fst f) \<or> (\<not> score_less (fst f) (fst e) \<and> str_less (snd e) (snd f)))"

fun insert_desc :: "score \<times> string \<Rightarrow> (score \<times> string) list \<Rightarrow> (score \<times> string) list" where
  "insert_desc e [] = [e]"
| "insert_desc e (f # fs) = (if entry_less e f then f # insert_desc e fs else e # f # fs)"

text \<open>
  \<^verbatim>\<open>heapq.nlargest(n, result)\<close> is \<^verbatim>\<open>sorted(result, reverse=True)[:n]\<close>: the entries in
  descending order, equal entries in their original order.
\<close>

definition nlargest :: "nat \<Rightarrow> (score \<times> string) list \<Rightarrow> (score \<times> string) list" where
  "nlargest n result = take n (foldr insert_desc result [])"

text \<open>
  \<^verbatim>\<open>get_close_matches(word, possibilities, n, cutoff)\<close>. The library tests two upper
  bounds of the ratio before the ratio itself, which changes no result. It raises
  ValueError unless \<open>n > 0\<close> and \<open>0 \<le> cutoff \<le> 1\<close>; every call of the script passes
  constants within these bounds.
\<close>

definition get_close_matches :: "string \<Rightarrow> string list \<Rightarrow> nat \<Rightarrow> score \<Rightarrow> string list" where
  "get_close_matches word possibilities n cutoff =
     map snd (nlargest n (map (\<lambda>x. (ratio x word, x))
                            [x \<leftarrow> possibilities. score_le cutoff (ratio x word)]))"

section \<open>Module constants and string operations\<close>

definition INTERACTIVE :: bool where
  "INTERACTIVE = False"

definition GET_CLOSE_MATCHES_NONINTERACTIVE_CUTOFF :: score where
  "GET_CLOSE_MATCHES_NONINTERACTIVE_CUTOFF = (1, 2)"

definition GET_CLOSE_MATCHES_SECOND_PASS_CUTOFF :: score where
  "GET_CLOSE_MATCHES_SECOND_PASS_CUTOFF = (7, 10)"

definition zero_cutoff :: score where
  "zero_cutoff = (0, 1)"

text \<open>\<^verbatim>\<open>str.lower\<close> on byte strings: the letters A to Z move to a to z.\<close>

definition lower_char :: "char \<Rightarrow> char" where
  "lower_char c =
     (if (65 :: nat) \<le> of_char c \<and> of_char c \<le> (90 :: nat)
      then char_of (of_char c + (32 :: nat)) else c)"

definition lower :: "string \<Rightarrow> string" where
  "lower s = map lower_char s"

text \<open>\<^verbatim>\<open>sub in s\<close> for strings.\<close>

fun substring_in :: "string \<Rightarrow> string \<Rightarrow> bool" where
  "substring_in sub [] = (sub = [])"
| "substring_in sub (c # cs) = (take (length sub) (c # cs) = sub \<or> substring_in sub cs)"

text \<open>\<^verbatim>\<open>s.split(sep)\<close> for a separator of one character.\<close>

fun split_at :: "char \<Rightarrow> string \<Rightarrow> string list" where
  "split_at sep [] = [[]]"
| "split_at sep (c # cs) =
     (if c = sep then [] # split_at sep cs
      else (case split_at sep cs of [] \<Rightarrow> [[c]] | w # ws \<Rightarrow> (c # w) # ws))"

definition dquote :: char where
  "dquote = CHR 0x22"

text \<open>\<^verbatim>\<open>line.split('"')[1]\<close>, an IndexError when the line has no double quote.\<close>

definition quoted_name :: "string \<Rightarrow> py_error + string" where
  "quoted_name line =
     (case split_at dquote line of
        before # name # after \<Rightarrow> Inr name
      | _ \<Rightarrow> Inl IndexError)"

definition is_declaration :: "string \<Rightarrow> bool" where
  "is_declaration line = substring_in ''standard_name name='' line"

text \<open>\<^verbatim>\<open>xs.remove(x)\<close>: the first occurrence goes, a ValueError when there is none.\<close>

definition list_remove :: "'a \<Rightarrow> 'a list \<Rightarrow> py_error + 'a list" where
  "list_remove x xs = (if x \<in> set xs then Inr (remove1 x xs) else Inl ValueError)"

section \<open>process\_diff\_lines\<close>

text \<open>The loop of the first branch: lines of equal count, paired by position.\<close>

fun pair_positional :: "change list \<Rightarrow> string list \<Rightarrow> string list \<Rightarrow> py_error + change list" where
  "pair_positional std_name_changes (m # minus_lines) (p # plus_lines) =
     (if is_declaration m \<and> is_declaration p
      then (case quoted_name m of
              Inl e \<Rightarrow> Inl e
            | Inr old \<Rightarrow>
                (case quoted_name p of
                   Inl e \<Rightarrow> Inl e
                 | Inr new \<Rightarrow> pair_positional (std_name_changes @ [(old, new)]) minus_lines plus_lines))
      else pair_positional std_name_changes minus_lines plus_lines)"
| "pair_positional std_name_changes minus_lines plus_lines = Inr std_name_changes"

text \<open>The loops of the second and third branch: new names only, deleted names only.\<close>

fun new_names_only :: "change list \<Rightarrow> string list \<Rightarrow> py_error + change list" where
  "new_names_only std_name_changes [] = Inr std_name_changes"
| "new_names_only std_name_changes (p # plus_lines) =
     (if is_declaration p
      then (case quoted_name p of
              Inl e \<Rightarrow> Inl e
            | Inr new \<Rightarrow> new_names_only (std_name_changes @ [([], new)]) plus_lines)
      else new_names_only std_name_changes plus_lines)"

fun deleted_names_only :: "change list \<Rightarrow> string list \<Rightarrow> py_error + change list" where
  "deleted_names_only std_name_changes [] = Inr std_name_changes"
| "deleted_names_only std_name_changes (m # minus_lines) =
     (if is_declaration m
      then (case quoted_name m of
              Inl e \<Rightarrow> Inl e
            | Inr old \<Rightarrow> deleted_names_only (std_name_changes @ [(old, [])]) minus_lines)
      else deleted_names_only std_name_changes minus_lines)"

text \<open>The two loops that fill \<^verbatim>\<open>potential_removals\<close> and \<^verbatim>\<open>potential_additions\<close>.\<close>

fun potential_names :: "string list \<Rightarrow> string list \<Rightarrow> py_error + string list" where
  "potential_names names [] = Inr names"
| "potential_names names (l # lines) =
     (if is_declaration l
      then (case quoted_name l of
              Inl e \<Rightarrow> Inl e
            | Inr name \<Rightarrow> potential_names (names @ [name]) lines)
      else potential_names names lines)"

text \<open>
  The interactive loop over \<^verbatim>\<open>potential_removals\<close>. \<^verbatim>\<open>int(val)\<close> is the number itself for
  a number; get\_choice returns nothing else, its choices being a range.
\<close>

definition py_int :: "pyval \<Rightarrow> py_error + int" where
  "py_int v = (case v of IntV i \<Rightarrow> Inr i | StrV s \<Rightarrow> Inl ValueError)"

fun ask_replacements ::
  "pyval list \<Rightarrow> change list \<Rightarrow> string list \<Rightarrow> string list \<Rightarrow> string list
     \<Rightarrow> py_error + (change list \<times> string list \<times> string list \<times> pyval list)" where
  "ask_replacements stdin std_name_changes processed [] potential_additions =
     Inr (std_name_changes, processed, potential_additions, stdin)"
| "ask_replacements stdin std_name_changes processed (r # potential_removals) potential_additions =
     (case get_choice (py_range (length potential_additions + 1)) stdin of
        Inl e \<Rightarrow> Inl e
      | Inr (val, stdin') \<Rightarrow>
          (case py_int val of
             Inl e \<Rightarrow> Inl e
           | Inr v \<Rightarrow>
               if 0 < v \<and> v \<le> int (length potential_additions)
               then (case list_remove (potential_additions ! (nat v - 1)) potential_additions of
                       Inl e \<Rightarrow> Inl e
                     | Inr potential_additions' \<Rightarrow>
                         ask_replacements stdin'
                           (std_name_changes @ [(r, potential_additions ! (nat v - 1))])
                           (processed @ [r]) potential_removals potential_additions')
               else ask_replacements stdin' std_name_changes processed potential_removals
                      potential_additions))"

text \<open>
  The automatic loop over \<^verbatim>\<open>potential_removals\<close>; \<^verbatim>\<open>processed_potential_removals\<close> is
  written there and never read.
\<close>

fun match_removals ::
  "change list \<Rightarrow> string list \<Rightarrow> string list \<Rightarrow> py_error + (change list \<times> string list)" where
  "match_removals std_name_changes [] potential_additions =
     Inr (std_name_changes, potential_additions)"
| "match_removals std_name_changes (r # potential_removals) potential_additions =
     (case get_close_matches r potential_additions 1 GET_CLOSE_MATCHES_NONINTERACTIVE_CUTOFF of
        [] \<Rightarrow> match_removals (std_name_changes @ [(r, [])]) potential_removals potential_additions
      | close_match # others \<Rightarrow>
          (case list_remove close_match potential_additions of
             Inl e \<Rightarrow> Inl e
           | Inr potential_additions' \<Rightarrow>
               match_removals (std_name_changes @ [(r, close_match)]) potential_removals
                 potential_additions'))"

definition process_diff_lines ::
  "pyval list \<Rightarrow> change list \<Rightarrow> string list \<Rightarrow> string list
     \<Rightarrow> py_error + (change list \<times> pyval list)" where
  "process_diff_lines stdin std_name_changes minus_lines plus_lines =
     (if length minus_lines = length plus_lines
      then (case pair_positional std_name_changes minus_lines plus_lines of
              Inl e \<Rightarrow> Inl e | Inr cs \<Rightarrow> Inr (cs, stdin))
      else if length minus_lines = 0
      then (case new_names_only std_name_changes plus_lines of
              Inl e \<Rightarrow> Inl e | Inr cs \<Rightarrow> Inr (cs, stdin))
      else if length plus_lines = 0
      then (case deleted_names_only std_name_changes minus_lines of
              Inl e \<Rightarrow> Inl e | Inr cs \<Rightarrow> Inr (cs, stdin))
      else (case potential_names [] minus_lines of
              Inl e \<Rightarrow> Inl e
            | Inr potential_removals \<Rightarrow>
                (case potential_names [] plus_lines of
                   Inl e \<Rightarrow> Inl e
                 | Inr potential_additions \<Rightarrow>
                     if INTERACTIVE
                     then (case ask_replacements stdin std_name_changes [] potential_removals
                                 potential_additions of
                             Inl e \<Rightarrow> Inl e
                           | Inr (cs, processed, additions, stdin') \<Rightarrow>
                               Inr (cs @ map (\<lambda>x. (x, [])) [x \<leftarrow> potential_removals. x \<notin> set processed]
                                       @ map (\<lambda>x. ([], x)) additions, stdin'))
                     else (case match_removals std_name_changes potential_removals
                                 potential_additions of
                             Inl e \<Rightarrow> Inl e
                           | Inr (cs, additions) \<Rightarrow>
                               Inr (cs @ map (\<lambda>x. ([], x)) additions, stdin)))))"

section \<open>find\_changed\_vars\<close>

text \<open>
  The function reads the two files and hands their lines to \<^verbatim>\<open>difflib.unified_diff\<close> with
  no context lines. The model starts from the lines the library yields: the two header
  lines \<^verbatim>\<open>--- old\<close> and \<^verbatim>\<open>+++ new\<close>, then for every hunk its \<^verbatim>\<open>@@ ... @@\<close> line, its
  removed lines with the prefix \<^verbatim>\<open>-\<close> and its added lines with the prefix \<^verbatim>\<open>+\<close>. What the
  function prints is left out.
\<close>

fun diff_loop ::
  "pyval list \<Rightarrow> change list \<Rightarrow> string list \<Rightarrow> string list \<Rightarrow> string list
     \<Rightarrow> py_error + (change list \<times> string list \<times> string list \<times> pyval list)" where
  "diff_loop stdin std_name_changes minus_lines plus_lines [] =
     Inr (std_name_changes, minus_lines, plus_lines, stdin)"
| "diff_loop stdin std_name_changes minus_lines plus_lines (l # diff_lines) =
     (let line = lower l
      in if substring_in ''@@'' line
         then (case process_diff_lines stdin std_name_changes minus_lines plus_lines of
                 Inl e \<Rightarrow> Inl e
               | Inr (cs, stdin') \<Rightarrow> diff_loop stdin' cs [] [] diff_lines)
         else (case line of
                 [] \<Rightarrow> Inl IndexError
               | c # rest \<Rightarrow>
                   if c = CHR ''-''
                   then diff_loop stdin std_name_changes (minus_lines @ [line]) plus_lines diff_lines
                   else if c = CHR ''+''
                   then diff_loop stdin std_name_changes minus_lines (plus_lines @ [line]) diff_lines
                   else diff_loop stdin std_name_changes minus_lines plus_lines diff_lines))"

definition first_pass :: "pyval list \<Rightarrow> string list \<Rightarrow> py_error + change list" where
  "first_pass stdin diff_lines =
     (case diff_loop stdin [] [] [] diff_lines of
        Inl e \<Rightarrow> Inl e
      | Inr (cs, minus_lines, plus_lines, stdin') \<Rightarrow>
          (case process_diff_lines stdin' cs minus_lines plus_lines of
             Inl e \<Rightarrow> Inl e
           | Inr (cs', stdin'') \<Rightarrow> Inr cs'))"

text \<open>The three lists the second pass computes from the change list.\<close>

definition std_nm_replacements :: "change list \<Rightarrow> change list" where
  "std_nm_replacements cs = [x \<leftarrow> cs. truthy (fst x) \<and> truthy (snd x)]"

definition std_nm_new :: "change list \<Rightarrow> string list" where
  "std_nm_new cs = map snd [x \<leftarrow> cs. \<not> truthy (fst x) \<and> truthy (snd x)]"

definition std_nm_deletions :: "change list \<Rightarrow> string list" where
  "std_nm_deletions cs = map fst [x \<leftarrow> cs. truthy (fst x) \<and> \<not> truthy (snd x)]"

text \<open>\<^verbatim>\<open>[x[0] for x in std_name_changes if x[1] == close_matches[0]][0]\<close>\<close>

definition close_match_orig :: "change list \<Rightarrow> string \<Rightarrow> py_error + string" where
  "close_match_orig cs close_match =
     (case map fst [x \<leftarrow> cs. snd x = close_match] of
        [] \<Rightarrow> Inl IndexError
      | orig # others \<Rightarrow> Inr orig)"

text \<open>
  The loop over the replacements. The lists \<open>nm_new\<close> and \<open>replacements_new\<close> and the
  list the loop runs over are computed before the loop and stay as they are; only
  \<open>std_name_changes\<close> changes.
\<close>

fun sweep_replacements ::
  "string list \<Rightarrow> string list \<Rightarrow> change list \<Rightarrow> change list \<Rightarrow> py_error + change list" where
  "sweep_replacements nm_new replacements_new [] std_name_changes = Inr std_name_changes"
| "sweep_replacements nm_new replacements_new (r # rs) std_name_changes =
     (case get_close_matches (fst r) nm_new 1 GET_CLOSE_MATCHES_SECOND_PASS_CUTOFF of
        [] \<Rightarrow> sweep_replacements nm_new replacements_new rs std_name_changes
      | close_match # others \<Rightarrow>
          (case get_close_matches (fst r) [snd r, close_match] 2 zero_cutoff of
             [] \<Rightarrow> Inl IndexError
           | best # rest \<Rightarrow>
               if best = close_match
               then (case list_remove r std_name_changes of
                       Inl e \<Rightarrow> Inl e
                     | Inr cs \<Rightarrow>
                         if close_match \<notin> set replacements_new
                         then sweep_replacements nm_new replacements_new rs
                                (cs @ [([], snd r)] @ [(fst r, close_match)])
                         else (case close_match_orig (cs @ [([], snd r)]) close_match of
                                 Inl e \<Rightarrow> Inl e
                               | Inr orig \<Rightarrow>
                                   sweep_replacements nm_new replacements_new rs
                                     (cs @ [([], snd r)] @ [(orig, [])] @ [(fst r, close_match)])))
               else sweep_replacements nm_new replacements_new rs std_name_changes))"

text \<open>
  The loop over the deletions. \<open>d\<close> is a name, so \<^verbatim>\<open>d[0]\<close> is its first character, and
  \<^verbatim>\<open>std_name_changes.remove(d)\<close> looks for a string in a list of tuples: a ValueError.
\<close>

fun sweep_deletions ::
  "string list \<Rightarrow> string list \<Rightarrow> string list \<Rightarrow> change list \<Rightarrow> py_error + change list" where
  "sweep_deletions nm_new replacements_new [] std_name_changes = Inr std_name_changes"
| "sweep_deletions nm_new replacements_new (d # ds) std_name_changes =
     (case d of
        [] \<Rightarrow> Inl IndexError
      | d0 # d_rest \<Rightarrow>
          (case get_close_matches [d0] nm_new 1 GET_CLOSE_MATCHES_SECOND_PASS_CUTOFF of
             [] \<Rightarrow> sweep_deletions nm_new replacements_new ds std_name_changes
           | close_match # others \<Rightarrow>
               if close_match \<notin> set replacements_new
               then (case list_remove (d, []) std_name_changes of
                       Inl e \<Rightarrow> Inl e
                     | Inr cs \<Rightarrow>
                         (case list_remove ([], close_match) cs of
                            Inl e \<Rightarrow> Inl e
                          | Inr cs' \<Rightarrow>
                              sweep_deletions nm_new replacements_new ds (cs' @ [(d, close_match)])))
               else (case close_match_orig std_name_changes close_match of
                       Inl e \<Rightarrow> Inl e
                     | Inr orig \<Rightarrow>
                         (case get_close_matches close_match [[d0], orig] 2 zero_cutoff of
                            [] \<Rightarrow> Inl IndexError
                          | best # rest \<Rightarrow>
                              if best = [d0] then Inl ValueError
                              else sweep_deletions nm_new replacements_new ds std_name_changes))))"

text \<open>The second pass: both loops, each with its lists computed from the list it starts on.\<close>

definition second_pass :: "change list \<Rightarrow> py_error + change list" where
  "second_pass std_name_changes =
     (case sweep_replacements (std_nm_new std_name_changes)
             (map snd (std_nm_replacements std_name_changes))
             (std_nm_replacements std_name_changes) std_name_changes of
        Inl e \<Rightarrow> Inl e
      | Inr cs \<Rightarrow>
          sweep_deletions (std_nm_new cs) (map snd (std_nm_replacements cs))
            (std_nm_deletions cs) cs)"

definition find_changed_vars ::
  "pyval list \<Rightarrow> string list \<Rightarrow> py_error + (change list \<times> nat \<times> nat \<times> nat)" where
  "find_changed_vars stdin diff_lines =
     (case first_pass stdin diff_lines of
        Inl e \<Rightarrow> Inl e
      | Inr cs \<Rightarrow>
          (case second_pass cs of
             Inl e \<Rightarrow> Inl e
           | Inr std_name_changes \<Rightarrow>
               Inr (std_name_changes, n_replacements std_name_changes, n_adds std_name_changes,
                    n_removals std_name_changes)))"

section \<open>Catalog lines\<close>

text \<open>
  The catalog line that declares a name, \<^verbatim>\<open><standard_name name="NAME">\<close> with its line
  end, as \<^verbatim>\<open>readlines\<close> returns it; the examples below are built from it.
\<close>

definition declaration_line :: "string \<Rightarrow> string" where
  "declaration_line name = ''<standard_name name='' @ [dquote] @ name @ [dquote] @ ''>'' @ [CHR 0x0A]"

section \<open>Notions used in the statements\<close>

text \<open>The records that parse\_change\_file leaves out.\<close>

definition dropped :: "string list \<Rightarrow> string list \<Rightarrow> change \<Rightarrow> bool" where
  "dropped host physics c =
     (truthy (fst c) \<and> truthy (snd c) \<and> fst c \<notin> set (host @ physics))"

text \<open>
  A record with at least one field set, and a list of lines whose declarations all carry
  a name that is not empty.
\<close>

definition has_name :: "change \<Rightarrow> bool" where
  "has_name c = (truthy (fst c) \<or> truthy (snd c))"

definition named_lines :: "string list \<Rightarrow> bool" where
  "named_lines lines = (\<forall>l \<in> set lines. is_declaration l \<longrightarrow> quoted_name l \<noteq> Inr [])"

text \<open>
  The automatic mode in the words of the specification. The best match of a removed name is
  its candidate of the highest similarity among those that clear the cutoff (of two
  candidates of equal similarity, the greater name), none when no candidate clears it.
  Each removed name, in order, takes its best match out of the pool and becomes a rename,
  or becomes a pure removal when it has none; the names left in the pool become pure
  additions.
\<close>

fun best_candidate :: "string \<Rightarrow> string \<Rightarrow> string list \<Rightarrow> string" where
  "best_candidate word best [] = best"
| "best_candidate word best (x # xs) =
     best_candidate word (if entry_less (ratio best word, best) (ratio x word, x) then x else best) xs"

definition best_match :: "string \<Rightarrow> string list \<Rightarrow> score \<Rightarrow> string option" where
  "best_match word pool cutoff =
     (case [x \<leftarrow> pool. score_le cutoff (ratio x word)] of
        [] \<Rightarrow> None
      | x # xs \<Rightarrow> Some (best_candidate word x xs))"


text \<open>
  The order of the entries \<^verbatim>\<open>(score, x)\<close> is the lexicographic order of the pairs of the
  score as a number and the name as its list of character codes.
\<close>

definition entry_key :: "score \<times> string \<Rightarrow> real \<times> nat list" where
  "entry_key e = (real (fst (fst e)) / real (snd (fst e)), map of_char (snd e))"

text \<open>The entry of a candidate \<open>x\<close> for a word.\<close>

definition entry_of :: "string \<Rightarrow> string \<Rightarrow> score \<times> string" where
  "entry_of word x = (ratio x word, x)"

text \<open>
  The lowercased quoted names of the lines of a diff whose lowercased form holds the
  marker; a record whose fields are empty or among given names; lines whose declarations
  carry names among given names.
\<close>

definition lowered_names :: "string list \<Rightarrow> string list" where
  "lowered_names diff_lines =
     concat (map (\<lambda>l. if is_declaration (lower l)
                       then (case quoted_name l of Inr n \<Rightarrow> [lower n] | Inl e \<Rightarrow> [])
                       else []) diff_lines)"

definition from_names :: "string list \<Rightarrow> change \<Rightarrow> bool" where
  "from_names names c =
     ((fst c = [] \<or> fst c \<in> set names) \<and> (snd c = [] \<or> snd c \<in> set names))"

definition known_lines :: "string list \<Rightarrow> string list \<Rightarrow> bool" where
  "known_lines names lines =
     (\<forall>l \<in> set lines. is_declaration l \<longrightarrow> (\<forall>n. quoted_name l = Inr n \<longrightarrow> n \<in> set names))"

section \<open>Properties of get\_choice\<close>

lemma get_choice_loop_skips:
  assumes "choice \<notin> set choices" and "\<forall>u \<in> set pre. u \<notin> set choices" and "v \<in> set choices"
  shows "get_choice_loop choices choice (pre @ v # rest) = Inr (v, rest)"
  using assms
proof (induction pre arbitrary: choice)
  case Nil
  then show ?case by (cases rest) simp_all
next
  case (Cons u pre)
  then show ?case by simp
qed

lemma sentinel_not_in_range: "IntV (- 999) \<notin> set (py_range n)"
  by (auto simp: py_range_def)

text \<open>
  C9. Called with the choices \<^verbatim>\<open>range(n)\<close>, get\_choice re-prompts after every entry that
  is not in the range and returns the first entry that is: for entries \<open>pre @ v # rest\<close>
  with no element of \<open>pre\<close> in the range and \<open>v\<close> in it, the result is \<open>v\<close>, and exactly
  \<open>rest\<close> is left unread.
\<close>

theorem get_choice_first_valid:
  assumes "\<forall>u \<in> set pre. u \<notin> set (py_range n)" and "v \<in> set (py_range n)"
  shows "get_choice (py_range n) (pre @ v # rest) = Inr (v, rest)"
  unfolding get_choice_def
  using sentinel_not_in_range assms by (rule get_choice_loop_skips)

theorem get_choice_first_valid_witness:
  "get_choice (py_range 3) ([IntV 7, StrV ''x'', IntV (- 1)] @ IntV 2 # [IntV 0]) = Inr (IntV 2, [IntV 0])"
proof -
  have h1: "\<forall>u \<in> set [IntV 7, StrV ''x'', IntV (- 1)]. u \<notin> set (py_range 3)"
    by (auto simp: py_range_def)
  have h2: "IntV 2 \<in> set (py_range 3)"
    by (simp add: py_range_def upt_conv_Cons)
  from get_choice_first_valid [OF h1 h2] show ?thesis .
qed

section \<open>Properties of parse\_change\_file\<close>

lemma validate_changes_filter:
  "validate_changes host physics cs (acc, printed) =
     (acc @ [c \<leftarrow> cs. \<not> dropped host physics c],
      printed @ map ignore_message [c \<leftarrow> cs. dropped host physics c])"
  by (induction cs arbitrary: acc printed) (simp_all add: dropped_def)

text \<open>
  C6 (as amended). Replaying a change list drops, with one diagnostic line each, exactly the
  records that have both fields set and whose \<open>old\<close> is not a key of the host or physics
  metadata. Every other record is kept in order, pure removals and pure additions included
  whatever their names; the three counts are those of the kept records; and the function
  returns for every list of records.
\<close>

theorem parse_change_file_drops_only_replacements:
  "applied (parse_change_file cs host physics) = [c \<leftarrow> cs. \<not> dropped host physics c] \<and>
   diagnostics (parse_change_file cs host physics) =
     map ignore_message [c \<leftarrow> cs. dropped host physics c] \<and>
   replacements (parse_change_file cs host physics) =
     n_replacements (applied (parse_change_file cs host physics)) \<and>
   adds (parse_change_file cs host physics) = n_adds (applied (parse_change_file cs host physics)) \<and>
   removals (parse_change_file cs host physics) =
     n_removals (applied (parse_change_file cs host physics))"
  by (simp add: parse_change_file_def validate_changes_filter)

theorem parse_change_file_drops_only_replacements_witness:
  "applied (parse_change_file [(''old_name'', ''new_name''), (''gone'', []), ([], ''fresh''),
       (''t_air'', ''air_temperature'')] [''t_air''] [''q_v'']) =
     [(''gone'', []), ([], ''fresh''), (''t_air'', ''air_temperature'')] \<and>
   replacements (parse_change_file [(''old_name'', ''new_name''), (''gone'', []), ([], ''fresh''),
       (''t_air'', ''air_temperature'')] [''t_air''] [''q_v'']) = 1"
  using parse_change_file_drops_only_replacements
    [of "[(''old_name'', ''new_name''), (''gone'', []), ([], ''fresh''),
          (''t_air'', ''air_temperature'')]" "[''t_air'']" "[''q_v'']"]
  by (simp add: dropped_def truthy_def n_replacements_def)

text \<open>
  The claim as first stated fails: a pure removal whose old name is not a known name is
  kept in the applied list.
\<close>

theorem parse_change_file_keeps_unknown_removal:
  "(''gone'', []) \<in> set (applied (parse_change_file [(''gone'', [])] [''t_air''] [''q_v''])) \<and>
   ''gone'' \<notin> set ([''t_air''] @ [''q_v''])"
  by (simp add: parse_change_file_def truthy_def)

section \<open>The script on concrete catalogs\<close>

text \<open>
  C1. After the second pass no two rename records should share their new name. The
  script breaks this. Old catalog: \<open>wind_u\<close>, a line \<^verbatim>\<open><k/>\<close>, \<open>wind_v\<close>, a line
  \<^verbatim>\<open><m/>\<close>; new catalog: \<open>u10\<close>, \<^verbatim>\<open><k/>\<close>, \<open>v10\<close>, \<^verbatim>\<open><m/>\<close>, \<open>wind\<close>. The first pass
  pairs \<open>wind_u\<close> with \<open>u10\<close> and \<open>wind_v\<close> with \<open>v10\<close>; the loop over the replacements then
  gives both the new name \<open>wind\<close>, which also stays in the list as an addition.
\<close>

theorem renames_share_target:
  "find_changed_vars []
     [''--- old.xml'', ''+++ new.xml'',
      ''@@ -1 +1 @@'', CHR ''-'' # declaration_line ''wind_u'', CHR ''+'' # declaration_line ''u10'',
      ''@@ -3 +3 @@'', CHR ''-'' # declaration_line ''wind_v'', CHR ''+'' # declaration_line ''v10'',
      ''@@ -4,0 +5 @@'', CHR ''+'' # declaration_line ''wind'']
   = Inr ([([], ''wind''), ([], ''u10''), (''wind_u'', ''wind''), ([], ''v10''), (''wind_v'', ''wind'')],
          2, 3, 0)"
  by code_simp

text \<open>
  The branch of the same loop for a candidate that is already the new name of another
  rename appends the removal of that rename's old name and leaves the rename itself in
  the list. Old catalog: \<open>zz\<close>, \<^verbatim>\<open><k/>\<close>, \<open>wind_u\<close>, \<^verbatim>\<open><m/>\<close>; new catalog: \<open>wind\<close>,
  \<^verbatim>\<open><k/>\<close>, \<open>u10\<close>, \<^verbatim>\<open><m/>\<close>, \<open>wind\<close>.
\<close>

lemma conflicting_rename_is_kept:
  "find_changed_vars []
     [''--- old.xml'', ''+++ new.xml'',
      ''@@ -1 +1 @@'', CHR ''-'' # declaration_line ''zz'', CHR ''+'' # declaration_line ''wind'',
      ''@@ -3 +3 @@'', CHR ''-'' # declaration_line ''wind_u'', CHR ''+'' # declaration_line ''u10'',
      ''@@ -4,0 +5 @@'', CHR ''+'' # declaration_line ''wind'']
   = Inr ([(''zz'', ''wind''), ([], ''wind''), ([], ''u10''), (''zz'', []), (''wind_u'', ''wind'')],
          2, 2, 1)"
  by code_simp

text \<open>
  C2. The loop over the deletions should search the additions for the whole removed name.
  The script searches for the first character of the name. Old catalog: \<open>temp_sfc\<close>,
  \<^verbatim>\<open><k/>\<close>; new catalog: \<^verbatim>\<open><k/>\<close>, \<open>temp_sfc2\<close>. The addition is a close match of the removed
  name at the cutoff 0.7, and the result still holds a removal and an addition.
\<close>

theorem deletion_search_uses_first_character:
  "find_changed_vars []
     [''--- old.xml'', ''+++ new.xml'',
      ''@@ -1 +0,0 @@'', CHR ''-'' # declaration_line ''temp_sfc'',
      ''@@ -2,0 +2 @@'', CHR ''+'' # declaration_line ''temp_sfc2'']
   = Inr ([(''temp_sfc'', []), ([], ''temp_sfc2'')], 0, 1, 1) \<and>
   get_close_matches ''temp_sfc'' [''temp_sfc2''] 1 GET_CLOSE_MATCHES_SECOND_PASS_CUTOFF
   = [''temp_sfc2'']"
  by code_simp

text \<open>
  The same loop raises when two removed names start with the character that is a new
  name: the second removal looks for an addition that the first one has consumed.
\<close>

lemma deletion_sweep_raises:
  "find_changed_vars []
     [''--- old.xml'', ''+++ new.xml'',
      ''@@ -1 +0,0 @@'', CHR ''-'' # declaration_line ''q1'',
      ''@@ -3 +1,0 @@'', CHR ''-'' # declaration_line ''q2'',
      ''@@ -4,0 +3 @@'', CHR ''+'' # declaration_line ''q'']
   = Inl ValueError"
  by code_simp

text \<open>
  C4. A name declared only in the old catalog should end in a removal or a rename. Old
  catalog: the declaration of \<open>foo\<close>; new catalog: one line that declares nothing. The
  hunk has one removed and one added line, the pair is skipped, and \<open>foo\<close> is in no record.
\<close>

theorem removed_name_is_lost:
  "find_changed_vars []
     [''--- old.xml'', ''+++ new.xml'',
      ''@@ -1 +1 @@'', CHR ''-'' # declaration_line ''foo'', ''+<!-- foo is gone -->'' @ [CHR 0x0A]]
   = Inr ([], 0, 0, 0)"
  by code_simp

text \<open>
  C7. The second pass applied to its own result should change nothing. Old catalog:
  \<open>wind_u\<close>, \<^verbatim>\<open><k/>\<close>; new catalog: \<open>u10\<close>, \<^verbatim>\<open><k/>\<close>, \<open>wind\<close>. The second pass leaves the
  addition \<open>wind\<close> in the list beside the rename to \<open>wind\<close>; applied again, it takes the
  rename for a conflict with that addition and adds three records, one of them empty.
\<close>

theorem second_pass_twice_differs:
  "first_pass []
     [''--- old.xml'', ''+++ new.xml'',
      ''@@ -1 +1 @@'', CHR ''-'' # declaration_line ''wind_u'', CHR ''+'' # declaration_line ''u10'',
      ''@@ -2,0 +3 @@'', CHR ''+'' # declaration_line ''wind'']
   = Inr [(''wind_u'', ''u10''), ([], ''wind'')] \<and>
   second_pass [(''wind_u'', ''u10''), ([], ''wind'')]
   = Inr [([], ''wind''), ([], ''u10''), (''wind_u'', ''wind'')] \<and>
   second_pass [([], ''wind''), ([], ''u10''), (''wind_u'', ''wind'')]
   = Inr [([], ''wind''), ([], ''u10''), ([], ''wind''), ([], []), (''wind_u'', ''wind'')]"
  by code_simp

section \<open>Name extraction and letter case\<close>

lemma lower_char_dquote: "lower_char c = dquote \<longleftrightarrow> c = dquote"
proof (cases "(65 :: nat) \<le> of_char c \<and> of_char c \<le> (90 :: nat)")
  case True
  then have "of_char (lower_char c) = (of_char c + 32 :: nat)"
    by (simp add: lower_char_def)
  moreover have "of_char dquote = (34 :: nat)" by (simp add: dquote_def)
  ultimately have "lower_char c \<noteq> dquote" using True by auto
  moreover from True \<open>of_char dquote = (34 :: nat)\<close> have "c \<noteq> dquote" by auto
  ultimately show ?thesis by simp
next
  case False
  then show ?thesis by (auto simp: lower_char_def)
qed

lemma split_at_lower: "split_at dquote (lower s) = map lower (split_at dquote s)"
proof (induction s)
  case Nil
  show ?case by (simp add: lower_def)
next
  case (Cons c s)
  then show ?case
    by (cases "split_at dquote s") (auto simp: lower_def lower_char_dquote)
qed

lemma quoted_name_lower:
  "quoted_name (lower l) = (case quoted_name l of Inl e \<Rightarrow> Inl e | Inr n \<Rightarrow> Inr (lower n))"
  by (simp add: quoted_name_def split_at_lower split: list.splits)

lemma quoted_name_prefixed:
  "c \<noteq> dquote \<Longrightarrow> quoted_name (c # l) = quoted_name l"
  by (cases "split_at dquote l") (simp_all add: quoted_name_def)

lemma lower_plus: "lower (CHR ''+'' # l) = CHR ''+'' # lower l"
  by (simp add: lower_def lower_char_def)

lemma header_lines:
  "lower ''--- old.xml'' = ''--- old.xml''"
  "lower ''+++ new.xml'' = ''+++ new.xml''"
  "lower ''@@ -0,0 +1 @@'' = ''@@ -0,0 +1 @@''"
  "\<not> substring_in ''@@'' ''--- old.xml''"
  "\<not> substring_in ''@@'' ''+++ new.xml''"
  "substring_in ''@@'' ''@@ -0,0 +1 @@''"
  "\<not> is_declaration ''--- old.xml''"
  by code_simp+

lemma second_pass_single_addition: "second_pass [([], n)] = Inr [([], n)]"
  by (simp add: second_pass_def std_nm_replacements_def std_nm_deletions_def truthy_def)

text \<open>
  A hunk that adds the one line \<open>l\<close>, whose lowercased form holds the marker and whose
  quoted text is \<open>name\<close>, yields the single record \<open>('', lower name)\<close>.
\<close>

lemma single_added_line_record:
  assumes "is_declaration (lower l)" and "quoted_name l = Inr name"
    and "\<not> substring_in ''@@'' (lower l)"
  shows "find_changed_vars stdin
           [''--- old.xml'', ''+++ new.xml'', ''@@ -0,0 +1 @@'', CHR ''+'' # l]
         = Inr ([([], lower name)], 0, (if name = [] then 0 else 1), 0)"
proof -
  let ?L = "CHR ''+'' # lower l"
  have declL: "is_declaration ?L"
    using assms(1) by (simp add: is_declaration_def)
  have nameL: "quoted_name ?L = Inr (lower name)"
    using assms(2) by (simp add: quoted_name_prefixed quoted_name_lower dquote_def)
  have nohunkL: "\<not> substring_in ''@@'' ?L"
    using assms(3) by simp
  have headers: "process_diff_lines stdin [] [''--- old.xml''] [''+++ new.xml''] = Inr ([], stdin)"
    by (simp add: process_diff_lines_def header_lines)
  have loop: "diff_loop stdin [] [] []
      [''--- old.xml'', ''+++ new.xml'', ''@@ -0,0 +1 @@'', CHR ''+'' # l] = Inr ([], [], [?L], stdin)"
    using nohunkL by (simp add: header_lines headers lower_plus [of l] del: substring_in.simps)
  have hunk: "process_diff_lines stdin [] [] [?L] = Inr ([([], lower name)], stdin)"
    using declL nameL by (simp add: process_diff_lines_def)
  have first: "first_pass stdin
      [''--- old.xml'', ''+++ new.xml'', ''@@ -0,0 +1 @@'', CHR ''+'' # l] = Inr [([], lower name)]"
    by (simp only: first_pass_def loop hunk sum.case prod.case)
  show ?thesis
    by (simp add: find_changed_vars_def first second_pass_single_addition n_replacements_def
        n_adds_def n_removals_def truthy_def lower_def)
qed

text \<open>
  The claim as first stated fails: the name \<open>Foo\<close> of a removed declaration enters the
  record as \<open>foo\<close>.
\<close>

theorem name_case_is_not_preserved:
  "find_changed_vars []
     [''--- old.xml'', ''+++ new.xml'', ''@@ -1 +0,0 @@'', CHR ''-'' # declaration_line ''Foo'']
   = Inr ([(''foo'', [])], 0, 0, 1) \<and> ''foo'' \<noteq> ''Foo''"
  by code_simp

section \<open>Hunks of equal line counts\<close>

lemma potential_names_acc:
  "potential_names ns ls =
     (case potential_names [] ls of Inl e \<Rightarrow> Inl e | Inr r \<Rightarrow> Inr (ns @ r))"
proof (induction ls arbitrary: ns)
  case Nil
  show ?case by simp
next
  case (Cons l ls)
  show ?case
  proof (cases "is_declaration l")
    case False
    with Cons.IH [of ns] show ?thesis by simp
  next
    case True
    show ?thesis
    proof (cases "quoted_name l")
      case (Inl e)
      with True show ?thesis by simp
    next
      case (Inr n)
      with True Cons.IH [of "ns @ [n]"] Cons.IH [of "[n]"] show ?thesis
        by (simp split: sum.splits)
    qed
  qed
qed

lemma potential_names_declaration:
  assumes "is_declaration l" and "potential_names [] (l # ls) = Inr names"
  shows "\<exists>n r. quoted_name l = Inr n \<and> potential_names [] ls = Inr r \<and> names = n # r"
proof (cases "quoted_name l")
  case (Inl e)
  with assms show ?thesis by simp
next
  case (Inr n)
  with assms have "potential_names [n] ls = Inr names" by simp
  with potential_names_acc [of "[n]" ls] Inr show ?thesis
    by (cases "potential_names [] ls") simp_all
qed

lemma pair_positional_aligned:
  assumes "length ms = length ps"
    and "\<forall>(m, p) \<in> set (zip ms ps). is_declaration m = is_declaration p"
    and "potential_names [] ms = Inr removed" and "potential_names [] ps = Inr added"
  shows "pair_positional cs ms ps = Inr (cs @ zip removed added)"
  using assms
proof (induction ms ps arbitrary: cs removed added rule: list_induct2)
  case Nil
  then show ?case by simp
next
  case (Cons m ms p ps)
  from Cons.prems(1) have same: "is_declaration m = is_declaration p"
    and rest: "\<forall>(m, p) \<in> set (zip ms ps). is_declaration m = is_declaration p"
    by simp_all
  show ?case
  proof (cases "is_declaration m")
    case False
    with same Cons.prems have "potential_names [] ms = Inr removed"
      and "potential_names [] ps = Inr added" by simp_all
    from Cons.IH [OF rest this] False same show ?thesis by simp
  next
    case True
    with same have p: "is_declaration p" by simp
    from potential_names_declaration [OF True Cons.prems(2)]
    obtain old r1 where old: "quoted_name m = Inr old"
      and r1: "potential_names [] ms = Inr r1" and removed: "removed = old # r1"
      by blast
    from potential_names_declaration [OF p Cons.prems(3)]
    obtain new a1 where new: "quoted_name p = Inr new"
      and a1: "potential_names [] ps = Inr a1" and added: "added = new # a1"
      by blast
    from Cons.IH [OF rest r1 a1, of "cs @ [(old, new)]"] True p old new removed added
    show ?thesis by simp
  qed
qed

text \<open>
  C5 (as amended). A hunk with as many removed as added lines, in which a line is a
  declaration exactly when the line opposite it is one, yields exactly the index-wise
  records \<open>(R[i], A[i])\<close> of its removed names \<open>R\<close> and its added names \<open>A\<close>, which are
  equally many; no similarity score is consulted.
\<close>

theorem positional_pairing:
  assumes "length minus_lines = length plus_lines"
    and "\<forall>(m, p) \<in> set (zip minus_lines plus_lines). is_declaration m = is_declaration p"
    and "potential_names [] minus_lines = Inr removed"
    and "potential_names [] plus_lines = Inr added"
  shows "process_diff_lines stdin cs minus_lines plus_lines = Inr (cs @ zip removed added, stdin)
         \<and> length removed = length added"
proof -
  have "length removed = length added"
    using assms
  proof (induction minus_lines plus_lines arbitrary: removed added rule: list_induct2)
    case Nil
    then show ?case by simp
  next
    case (Cons m ms p ps)
    from Cons.prems(1) have same: "is_declaration m = is_declaration p"
      and rest: "\<forall>(m, p) \<in> set (zip ms ps). is_declaration m = is_declaration p"
      by simp_all
    show ?case
    proof (cases "is_declaration m")
      case False
      with same Cons.prems have "potential_names [] ms = Inr removed"
        and "potential_names [] ps = Inr added" by simp_all
      from Cons.IH [OF rest this] show ?thesis .
    next
      case True
      with same have p: "is_declaration p" by simp
      from potential_names_declaration [OF True Cons.prems(2)]
      obtain old r1 where
        r1: "potential_names [] ms = Inr r1" and removed: "removed = old # r1"
        by blast
      from potential_names_declaration [OF p Cons.prems(3)]
      obtain new a1 where
        a1: "potential_names [] ps = Inr a1" and added: "added = new # a1"
        by blast
      from Cons.IH [OF rest r1 a1] removed added show ?thesis by simp
    qed
  qed
  with pair_positional_aligned [OF assms, of cs] assms(1) show ?thesis
    by (simp add: process_diff_lines_def)
qed

theorem positional_pairing_witness:
  "process_diff_lines [] []
     [CHR ''-'' # declaration_line ''aa'', CHR ''-'' # ''<k/>'' @ [CHR 0x0A],
      CHR ''-'' # declaration_line ''bb'']
     [CHR ''+'' # declaration_line ''bb2'', CHR ''+'' # ''<m/>'' @ [CHR 0x0A],
      CHR ''+'' # declaration_line ''aa2'']
   = Inr ([(''aa'', ''bb2''), (''bb'', ''aa2'')], [])"
proof -
  let ?M = "[CHR ''-'' # declaration_line ''aa'', CHR ''-'' # ''<k/>'' @ [CHR 0x0A],
      CHR ''-'' # declaration_line ''bb'']"
  let ?P = "[CHR ''+'' # declaration_line ''bb2'', CHR ''+'' # ''<m/>'' @ [CHR 0x0A],
      CHR ''+'' # declaration_line ''aa2'']"
  have h1: "length ?M = length ?P" by simp
  have h2: "\<forall>(m, p) \<in> set (zip ?M ?P). is_declaration m = is_declaration p"
    by code_simp
  have h3: "potential_names [] ?M = Inr [''aa'', ''bb'']" by code_simp
  have h4: "potential_names [] ?P = Inr [''bb2'', ''aa2'']" by code_simp
  from positional_pairing [OF h1 h2 h3 h4, of "[]" "[]"] show ?thesis by simp
qed

text \<open>
  The claim as first stated fails: the test is on the counts of lines, not of names. A
  hunk of three removed lines and one added line has one removed and one added name; it
  is handed to the similarity search, and the two names, which have no character in
  common, become a pure removal and a pure addition.
\<close>

theorem equal_name_counts_not_paired:
  "potential_names [] [CHR ''-'' # declaration_line ''aa'', ''-<x/>'' @ [CHR 0x0A],
       ''-<y/>'' @ [CHR 0x0A]] = Inr [''aa''] \<and>
   potential_names [] [CHR ''+'' # declaration_line ''zz''] = Inr [''zz''] \<and>
   process_diff_lines [] [] [CHR ''-'' # declaration_line ''aa'', ''-<x/>'' @ [CHR 0x0A],
       ''-<y/>'' @ [CHR 0x0A]] [CHR ''+'' # declaration_line ''zz'']
     = Inr ([(''aa'', []), ([], ''zz'')], [])"
  by code_simp

section \<open>Records with a name\<close>

lemma named_lines_simps:
  "named_lines []"
  "named_lines (l # ls) \<longleftrightarrow> (is_declaration l \<longrightarrow> quoted_name l \<noteq> Inr []) \<and> named_lines ls"
  "named_lines (ls @ ls') \<longleftrightarrow> named_lines ls \<and> named_lines ls'"
  by (auto simp: named_lines_def)

lemma pair_positional_named:
  "pair_positional cs ms ps = Inr cs' \<Longrightarrow> named_lines ms \<Longrightarrow> \<forall>c \<in> set cs. has_name c
     \<Longrightarrow> \<forall>c \<in> set cs'. has_name c"
  by (induction cs ms ps rule: pair_positional.induct)
     (auto simp: named_lines_simps has_name_def truthy_def split: if_splits sum.splits)

lemma new_names_only_named:
  "new_names_only cs ps = Inr cs' \<Longrightarrow> named_lines ps \<Longrightarrow> \<forall>c \<in> set cs. has_name c
     \<Longrightarrow> \<forall>c \<in> set cs'. has_name c"
  by (induction cs ps rule: new_names_only.induct)
     (auto simp: named_lines_simps has_name_def truthy_def split: if_splits sum.splits)

lemma deleted_names_only_named:
  "deleted_names_only cs ms = Inr cs' \<Longrightarrow> named_lines ms \<Longrightarrow> \<forall>c \<in> set cs. has_name c
     \<Longrightarrow> \<forall>c \<in> set cs'. has_name c"
  by (induction cs ms rule: deleted_names_only.induct)
     (auto simp: named_lines_simps has_name_def truthy_def split: if_splits sum.splits)

lemma potential_names_named:
  "potential_names ns ls = Inr ns' \<Longrightarrow> named_lines ls \<Longrightarrow> [] \<notin> set ns \<Longrightarrow> [] \<notin> set ns'"
  by (induction ns ls rule: potential_names.induct)
     (auto simp: named_lines_simps split: if_splits sum.splits)

lemma set_insert_desc: "set (insert_desc e es) = insert e (set es)"
  by (induction es) auto

lemma set_nlargest: "set (nlargest n es) \<subseteq> set es"
proof -
  have "set (foldr insert_desc es []) = set es"
    by (induction es) (simp_all add: set_insert_desc)
  then show ?thesis
    unfolding nlargest_def using set_take_subset by fastforce
qed

lemma get_close_matches_subset: "set (get_close_matches word ps n cutoff) \<subseteq> set ps"
proof -
  have "set (get_close_matches word ps n cutoff)
      \<subseteq> snd ` set (map (\<lambda>x. (ratio x word, x)) [x \<leftarrow> ps. score_le cutoff (ratio x word)])"
    unfolding get_close_matches_def using set_nlargest by fastforce
  also have "\<dots> \<subseteq> set ps" by auto
  finally show ?thesis .
qed

lemma get_close_matches_head:
  "get_close_matches word ps n cutoff = m # ms \<Longrightarrow> m \<in> set ps"
  using get_close_matches_subset [of word ps n cutoff] by auto

lemma list_remove_set: "list_remove x xs = Inr ys \<Longrightarrow> set ys \<subseteq> set xs"
  using set_remove1_subset [of x xs] by (auto simp: list_remove_def split: if_splits)

lemma match_removals_named:
  "match_removals cs rs pool = Inr (cs', pool') \<Longrightarrow> [] \<notin> set rs \<Longrightarrow> \<forall>c \<in> set cs. has_name c
     \<Longrightarrow> (\<forall>c \<in> set cs'. has_name c) \<and> set pool' \<subseteq> set pool"
proof (induction rs arbitrary: cs pool)
  case Nil
  then show ?case by simp
next
  case (Cons r rs)
  from Cons.prems(2) have r: "r \<noteq> []" and rs: "[] \<notin> set rs" by auto
  show ?case
  proof (cases "get_close_matches r pool 1 GET_CLOSE_MATCHES_NONINTERACTIVE_CUTOFF")
    case Nil
    with Cons.prems(1) have run: "match_removals (cs @ [(r, [])]) rs pool = Inr (cs', pool')"
      by simp
    from Cons.prems(3) r have "\<forall>c \<in> set (cs @ [(r, [])]). has_name c"
      by (simp add: has_name_def truthy_def)
    from Cons.IH [OF run rs this] show ?thesis .
  next
    case cm: (Cons m ms)
    with Cons.prems(1) obtain pool1 where rm: "list_remove m pool = Inr pool1"
      and run: "match_removals (cs @ [(r, m)]) rs pool1 = Inr (cs', pool')"
      by (auto split: sum.splits)
    from Cons.prems(3) r have "\<forall>c \<in> set (cs @ [(r, m)]). has_name c"
      by (simp add: has_name_def truthy_def)
    from Cons.IH [OF run rs this] list_remove_set [OF rm] show ?thesis by auto
  qed
qed

lemma process_diff_lines_named:
  assumes "process_diff_lines stdin cs ms ps = Inr (cs', stdin')"
    and "named_lines ms" and "named_lines ps" and "\<forall>c \<in> set cs. has_name c"
  shows "\<forall>c \<in> set cs'. has_name c"
proof -
  consider (eq) "length ms = length ps"
    | (new) "length ms \<noteq> length ps" "length ms = 0"
    | (del) "length ms \<noteq> length ps" "length ms \<noteq> 0" "length ps = 0"
    | (mixed) "length ms \<noteq> length ps" "length ms \<noteq> 0" "length ps \<noteq> 0"
    by blast
  then show ?thesis
  proof cases
    case eq
    with assms(1) have "pair_positional cs ms ps = Inr cs'"
      by (auto simp: process_diff_lines_def split: sum.splits)
    from pair_positional_named [OF this assms(2) assms(4)] show ?thesis .
  next
    case new
    with assms(1) have "new_names_only cs ps = Inr cs'"
      by (auto simp: process_diff_lines_def split: sum.splits)
    from new_names_only_named [OF this assms(3) assms(4)] show ?thesis .
  next
    case del
    with assms(1) have "deleted_names_only cs ms = Inr cs'"
      by (auto simp: process_diff_lines_def split: sum.splits)
    from deleted_names_only_named [OF this assms(2) assms(4)] show ?thesis .
  next
    case mixed
    with assms(1) obtain rs pool cs1 pool1 where
      rs: "potential_names [] ms = Inr rs" and pool: "potential_names [] ps = Inr pool"
      and run: "match_removals cs rs pool = Inr (cs1, pool1)"
      and res: "cs' = cs1 @ map (\<lambda>x. ([], x)) pool1"
      by (auto simp: process_diff_lines_def INTERACTIVE_def split: sum.splits)
    from potential_names_named [OF rs assms(2)] have r0: "[] \<notin> set rs" by simp
    from potential_names_named [OF pool assms(3)] have a0: "[] \<notin> set pool" by simp
    from match_removals_named [OF run r0 assms(4)] a0 res show ?thesis
      by (auto simp: has_name_def truthy_def)
  qed
qed

lemma diff_loop_named:
  "diff_loop stdin cs ms ps ls = Inr (cs', ms', ps', stdin') \<Longrightarrow> named_lines (map lower ls)
     \<Longrightarrow> named_lines ms \<Longrightarrow> named_lines ps \<Longrightarrow> \<forall>c \<in> set cs. has_name c
     \<Longrightarrow> (\<forall>c \<in> set cs'. has_name c) \<and> named_lines ms' \<and> named_lines ps'"
proof (induction ls arbitrary: stdin cs ms ps)
  case Nil
  then show ?case by simp
next
  case (Cons l ls)
  from Cons.prems(2) have here: "is_declaration (lower l) \<longrightarrow> quoted_name (lower l) \<noteq> Inr []"
    and rest: "named_lines (map lower ls)"
    by (simp_all add: named_lines_simps)
  show ?case
  proof (cases "substring_in ''@@'' (lower l)")
    case True
    with Cons.prems(1) obtain cs1 stdin1 where
      p: "process_diff_lines stdin cs ms ps = Inr (cs1, stdin1)"
      and run: "diff_loop stdin1 cs1 [] [] ls = Inr (cs', ms', ps', stdin')"
      by (auto simp: Let_def split: sum.splits)
    from process_diff_lines_named [OF p Cons.prems(3) Cons.prems(4) Cons.prems(5)]
    have "\<forall>c \<in> set cs1. has_name c" .
    from Cons.IH [OF run rest _ _ this] show ?thesis by (simp add: named_lines_simps)
  next
    case False
    show ?thesis
    proof (cases "lower l")
      case Nil
      with False Cons.prems(1) show ?thesis by (simp add: Let_def)
    next
      case lc: (Cons c rest')
      consider (minus) "c = CHR ''-''" | (plus) "c \<noteq> CHR ''-''" "c = CHR ''+''"
        | (other) "c \<noteq> CHR ''-''" "c \<noteq> CHR ''+''" by blast
      then show ?thesis
      proof cases
        case minus
        with False lc Cons.prems(1)
        have run: "diff_loop stdin cs (ms @ [lower l]) ps ls = Inr (cs', ms', ps', stdin')"
          by (simp add: Let_def del: substring_in.simps)
        from Cons.prems(3) here have "named_lines (ms @ [lower l])"
          by (simp add: named_lines_simps)
        from Cons.IH [OF run rest this Cons.prems(4) Cons.prems(5)] show ?thesis .
      next
        case plus
        with False lc Cons.prems(1)
        have run: "diff_loop stdin cs ms (ps @ [lower l]) ls = Inr (cs', ms', ps', stdin')"
          by (simp add: Let_def del: substring_in.simps)
        from Cons.prems(4) here have "named_lines (ps @ [lower l])"
          by (simp add: named_lines_simps)
        from Cons.IH [OF run rest Cons.prems(3) this Cons.prems(5)] show ?thesis .
      next
        case other
        with False lc Cons.prems(1)
        have run: "diff_loop stdin cs ms ps ls = Inr (cs', ms', ps', stdin')"
          by (simp add: Let_def del: substring_in.simps)
        from Cons.IH [OF run rest Cons.prems(3) Cons.prems(4) Cons.prems(5)] show ?thesis .
      qed
    qed
  qed
qed

lemma first_pass_named:
  assumes "first_pass stdin diff_lines = Inr cs" and "named_lines (map lower diff_lines)"
  shows "\<forall>c \<in> set cs. has_name c"
proof -
  from assms(1) obtain cs1 ms ps stdin1 stdin2 where
    loop: "diff_loop stdin [] [] [] diff_lines = Inr (cs1, ms, ps, stdin1)"
    and last: "process_diff_lines stdin1 cs1 ms ps = Inr (cs, stdin2)"
    by (auto simp: first_pass_def split: sum.splits)
  from diff_loop_named [OF loop assms(2)]
  have "(\<forall>c \<in> set cs1. has_name c) \<and> named_lines ms \<and> named_lines ps"
    by (simp add: named_lines_simps)
  with process_diff_lines_named [OF last] show ?thesis by blast
qed

lemma sweep_replacements_named:
  "sweep_replacements nm_new repl_new rs cs = Inr cs' \<Longrightarrow> set nm_new \<inter> set repl_new = {}
     \<Longrightarrow> \<forall>r \<in> set rs. has_name (fst r, []) \<and> has_name ([], snd r) \<Longrightarrow> \<forall>c \<in> set cs. has_name c
     \<Longrightarrow> \<forall>c \<in> set cs'. has_name c"
proof (induction rs arbitrary: cs)
  case Nil
  then show ?case by simp
next
  case (Cons r rs)
  from Cons.prems(3) have r: "has_name (fst r, [])" "has_name ([], snd r)"
    and rs: "\<forall>r \<in> set rs. has_name (fst r, []) \<and> has_name ([], snd r)"
    by simp_all
  show ?case
  proof (cases "get_close_matches (fst r) nm_new 1 GET_CLOSE_MATCHES_SECOND_PASS_CUTOFF")
    case Nil
    with Cons.prems(1) have "sweep_replacements nm_new repl_new rs cs = Inr cs'" by simp
    from Cons.IH [OF this Cons.prems(2) rs Cons.prems(4)] show ?thesis .
  next
    case cm: (Cons m ms)
    from get_close_matches_head [OF cm] Cons.prems(2) have fresh: "m \<notin> set repl_new" by auto
    show ?thesis
    proof (cases "get_close_matches (fst r) [snd r, m] 2 zero_cutoff")
      case Nil
      with cm Cons.prems(1) show ?thesis by simp
    next
      case order: (Cons b bs)
      show ?thesis
      proof (cases "b = m")
        case True
        with cm order fresh Cons.prems(1) obtain cs1 where rm: "list_remove r cs = Inr cs1"
          and run: "sweep_replacements nm_new repl_new rs (cs1 @ [([], snd r)] @ [(fst r, m)]) = Inr cs'"
          by (auto split: sum.splits)
        from list_remove_set [OF rm] Cons.prems(4) r
        have "\<forall>c \<in> set (cs1 @ [([], snd r)] @ [(fst r, m)]). has_name c"
          by (auto simp: has_name_def truthy_def)
        from Cons.IH [OF run Cons.prems(2) rs this] show ?thesis .
      next
        case False
        with cm order Cons.prems(1) have "sweep_replacements nm_new repl_new rs cs = Inr cs'"
          by simp
        from Cons.IH [OF this Cons.prems(2) rs Cons.prems(4)] show ?thesis .
      qed
    qed
  qed
qed

lemma sweep_deletions_named:
  "sweep_deletions nm_new repl_new ds cs = Inr cs' \<Longrightarrow> \<forall>c \<in> set cs. has_name c
     \<Longrightarrow> \<forall>c \<in> set cs'. has_name c"
proof (induction ds arbitrary: cs)
  case Nil
  then show ?case by simp
next
  case (Cons d ds)
  show ?case
  proof (cases d)
    case Nil
    with Cons.prems(1) show ?thesis by simp
  next
    case d: (Cons d0 d_rest)
    show ?thesis
    proof (cases "get_close_matches [d0] nm_new 1 GET_CLOSE_MATCHES_SECOND_PASS_CUTOFF")
      case Nil
      with d Cons.prems(1) have "sweep_deletions nm_new repl_new ds cs = Inr cs'" by simp
      from Cons.IH [OF this Cons.prems(2)] show ?thesis .
    next
      case cm: (Cons m ms)
      show ?thesis
      proof (cases "m \<notin> set repl_new")
        case True
        with d cm Cons.prems(1) obtain cs1 cs2 where rm1: "list_remove (d, []) cs = Inr cs1"
          and rm2: "list_remove ([], m) cs1 = Inr cs2"
          and run: "sweep_deletions nm_new repl_new ds (cs2 @ [(d, m)]) = Inr cs'"
          by (auto split: sum.splits)
        from list_remove_set [OF rm1] list_remove_set [OF rm2] Cons.prems(2) d
        have "\<forall>c \<in> set (cs2 @ [(d, m)]). has_name c"
          by (auto simp: has_name_def truthy_def)
        from Cons.IH [OF run this] show ?thesis .
      next
        case False
        with d cm Cons.prems(1) have "sweep_deletions nm_new repl_new ds cs = Inr cs'"
          by (auto split: sum.splits list.splits if_splits)
        from Cons.IH [OF this Cons.prems(2)] show ?thesis .
      qed
    qed
  qed
qed

text \<open>
  C3 (as amended). When no declaration line of the diff has an empty quoted name, and no
  name is both an addition and the new name of a rename after the first pass, every
  record of the list that find\_changed\_vars returns has at least one field that is not
  empty.
\<close>

theorem records_have_a_name:
  assumes "\<forall>l \<in> set diff_lines. is_declaration (lower l) \<longrightarrow> quoted_name (lower l) \<noteq> Inr []"
    and "first_pass stdin diff_lines = Inr tentative"
    and "set (std_nm_new tentative) \<inter> set (map snd (std_nm_replacements tentative)) = {}"
    and "find_changed_vars stdin diff_lines = Inr (std_name_changes, counts)"
  shows "\<forall>c \<in> set std_name_changes. fst c \<noteq> [] \<or> snd c \<noteq> []"
proof -
  from assms(1) have "named_lines (map lower diff_lines)" by (simp add: named_lines_def)
  from first_pass_named [OF assms(2) this] have t: "\<forall>c \<in> set tentative. has_name c" .
  from assms(2) assms(4) have sp: "second_pass tentative = Inr std_name_changes"
    by (auto simp: find_changed_vars_def split: sum.splits)
  then obtain cs1 where
    s1: "sweep_replacements (std_nm_new tentative) (map snd (std_nm_replacements tentative))
           (std_nm_replacements tentative) tentative = Inr cs1"
    and s2: "sweep_deletions (std_nm_new cs1) (map snd (std_nm_replacements cs1))
           (std_nm_deletions cs1) cs1 = Inr std_name_changes"
    by (auto simp: second_pass_def split: sum.splits)
  have "\<forall>r \<in> set (std_nm_replacements tentative). has_name (fst r, []) \<and> has_name ([], snd r)"
    by (simp add: std_nm_replacements_def has_name_def truthy_def)
  from sweep_replacements_named [OF s1 assms(3) this t] have "\<forall>c \<in> set cs1. has_name c" .
  from sweep_deletions_named [OF s2 this] show ?thesis
    by (simp add: has_name_def truthy_def)
qed

theorem records_have_a_name_witness:
  "find_changed_vars []
     [''--- old.xml'', ''+++ new.xml'',
      ''@@ -1 +1 @@'', CHR ''-'' # declaration_line ''wind_u'', CHR ''+'' # declaration_line ''u10'',
      ''@@ -2,0 +3 @@'', CHR ''+'' # declaration_line ''wind'']
   = Inr ([([], ''wind''), ([], ''u10''), (''wind_u'', ''wind'')], 1, 2, 0) \<and>
   list_all (\<lambda>c. fst c \<noteq> [] \<or> snd c \<noteq> []) [([], ''wind''), ([], ''u10''), (''wind_u'', ''wind'')]"
proof -
  let ?D = "[''--- old.xml'', ''+++ new.xml'',
      ''@@ -1 +1 @@'', CHR ''-'' # declaration_line ''wind_u'', CHR ''+'' # declaration_line ''u10'',
      ''@@ -2,0 +3 @@'', CHR ''+'' # declaration_line ''wind'']"
  have h1: "\<forall>l \<in> set ?D. is_declaration (lower l) \<longrightarrow> quoted_name (lower l) \<noteq> Inr []"
    by code_simp
  have h2: "first_pass [] ?D = Inr [(''wind_u'', ''u10''), ([], ''wind'')]"
    by code_simp
  have h3: "set (std_nm_new [(''wind_u'', ''u10''), ([], ''wind'')])
      \<inter> set (map snd (std_nm_replacements [(''wind_u'', ''u10''), ([], ''wind'')])) = {}"
    by (simp add: std_nm_new_def std_nm_replacements_def truthy_def)
  have h4: "find_changed_vars [] ?D
      = Inr ([([], ''wind''), ([], ''u10''), (''wind_u'', ''wind'')], 1, 2, 0)"
    by code_simp
  from records_have_a_name [OF h1 h2 h3 h4] h4 show ?thesis
    by (simp only: list_all_iff)
qed

text \<open>
  The claim as first stated fails: a declaration whose quoted name is empty, changed in
  place, gives the record with two empty fields.
\<close>

theorem empty_record_is_produced:
  "find_changed_vars []
     [''--- old.xml'', ''+++ new.xml'', ''@@ -1 +1 @@'',
      CHR ''-'' # declaration_line [],
      CHR ''+'' # ''<standard_name name='' @ [dquote, dquote] @ '' >'' @ [CHR 0x0A]]
   = Inr ([([], [])], 0, 0, 0)"
  by code_simp

text \<open>
  The second condition is needed: when the new catalog declares \<open>wind\<close> twice, once in
  place of \<open>wind_v\<close> and once as an addition, the loop over the replacements takes the
  old name of the conflicting record from the addition and appends an empty record.
\<close>

lemma empty_record_from_conflict:
  "find_changed_vars []
     [''--- old.xml'', ''+++ new.xml'',
      ''@@ -1 +1 @@'', CHR ''-'' # declaration_line ''wind_v'', CHR ''+'' # declaration_line ''wind'',
      ''@@ -3 +3 @@'', CHR ''-'' # declaration_line ''wind_u'', CHR ''+'' # declaration_line ''u10'',
      ''@@ -4,0 +5 @@'', CHR ''+'' # declaration_line ''wind'']
   = Inr ([([], ''wind''), ([], ''wind''), ([], []), (''wind_v'', ''wind''),
           ([], ''u10''), ([], []), (''wind_u'', ''wind'')], 2, 3, 0)"
  by code_simp

section \<open>Every name in a record is a lowercased name of the diff\<close>

lemma known_lines_simps:
  "known_lines N []"
  "known_lines N (l # ls) \<longleftrightarrow>
     (is_declaration l \<longrightarrow> (\<forall>n. quoted_name l = Inr n \<longrightarrow> n \<in> set N)) \<and> known_lines N ls"
  "known_lines N (ls @ ls') \<longleftrightarrow> known_lines N ls \<and> known_lines N ls'"
  by (auto simp: known_lines_def)

lemma lower_char_idem: "lower_char (lower_char c) = lower_char c"
proof (cases "(65 :: nat) \<le> of_char c \<and> of_char c \<le> (90 :: nat)")
  case True
  then have "of_char (lower_char c) = (of_char c + 32 :: nat)"
    by (simp add: lower_char_def)
  with True have "\<not> ((65 :: nat) \<le> of_char (lower_char c) \<and> of_char (lower_char c) \<le> (90 :: nat))"
    by simp
  then show ?thesis by (subst lower_char_def) auto
next
  case False
  then show ?thesis by (auto simp: lower_char_def)
qed

lemma lower_idem: "lower (lower l) = lower l"
  by (simp add: lower_def lower_char_idem)

lemma diff_loop_lower:
  "diff_loop stdin cs ms ps (map lower ls) = diff_loop stdin cs ms ps ls"
proof (induction ls arbitrary: stdin cs ms ps)
  case Nil
  show ?case by simp
next
  case (Cons l ls)
  show ?case
    by (simp only: list.map diff_loop.simps lower_idem Cons.IH)
qed

lemma lowered_line_known:
  assumes "l \<in> set diff_lines"
  shows "known_lines (lowered_names diff_lines) [lower l]"
proof -
  have "n \<in> set (lowered_names diff_lines)"
    if "is_declaration (lower l)" and "quoted_name (lower l) = Inr n" for n
  proof -
    from that(2) obtain tok where tok: "quoted_name l = Inr tok" and n: "n = lower tok"
      by (auto simp: quoted_name_lower split: sum.splits)
    with assms that(1) show ?thesis
      by (force simp: lowered_names_def)
  qed
  then show ?thesis by (simp add: known_lines_simps)
qed

lemma pair_positional_from:
  "pair_positional cs ms ps = Inr cs' \<Longrightarrow> known_lines N ms \<Longrightarrow> known_lines N ps
     \<Longrightarrow> \<forall>c \<in> set cs. from_names N c \<Longrightarrow> \<forall>c \<in> set cs'. from_names N c"
  by (induction cs ms ps rule: pair_positional.induct)
     (auto simp: known_lines_simps from_names_def split: if_splits sum.splits)

lemma new_names_only_from:
  "new_names_only cs ps = Inr cs' \<Longrightarrow> known_lines N ps \<Longrightarrow> \<forall>c \<in> set cs. from_names N c
     \<Longrightarrow> \<forall>c \<in> set cs'. from_names N c"
  by (induction cs ps rule: new_names_only.induct)
     (auto simp: known_lines_simps from_names_def split: if_splits sum.splits)

lemma deleted_names_only_from:
  "deleted_names_only cs ms = Inr cs' \<Longrightarrow> known_lines N ms \<Longrightarrow> \<forall>c \<in> set cs. from_names N c
     \<Longrightarrow> \<forall>c \<in> set cs'. from_names N c"
  by (induction cs ms rule: deleted_names_only.induct)
     (auto simp: known_lines_simps from_names_def split: if_splits sum.splits)

lemma potential_names_from:
  "potential_names ns ls = Inr ns' \<Longrightarrow> known_lines N ls \<Longrightarrow> set ns \<subseteq> set N \<Longrightarrow> set ns' \<subseteq> set N"
  by (induction ns ls rule: potential_names.induct)
     (auto simp: known_lines_simps split: if_splits sum.splits)

lemma match_removals_from:
  "match_removals cs rs pool = Inr (cs', pool') \<Longrightarrow> set rs \<subseteq> set N \<Longrightarrow> set pool \<subseteq> set N
     \<Longrightarrow> \<forall>c \<in> set cs. from_names N c
     \<Longrightarrow> (\<forall>c \<in> set cs'. from_names N c) \<and> set pool' \<subseteq> set N"
proof (induction rs arbitrary: cs pool)
  case Nil
  then show ?case by simp
next
  case (Cons r rs)
  from Cons.prems(2) have r: "r \<in> set N" and rs: "set rs \<subseteq> set N" by auto
  show ?case
  proof (cases "get_close_matches r pool 1 GET_CLOSE_MATCHES_NONINTERACTIVE_CUTOFF")
    case Nil
    with Cons.prems(1) have run: "match_removals (cs @ [(r, [])]) rs pool = Inr (cs', pool')"
      by simp
    from Cons.prems(4) r have "\<forall>c \<in> set (cs @ [(r, [])]). from_names N c"
      by (simp add: from_names_def)
    from Cons.IH [OF run rs Cons.prems(3) this] show ?thesis .
  next
    case cm: (Cons m ms)
    with Cons.prems(1) obtain pool1 where rm: "list_remove m pool = Inr pool1"
      and run: "match_removals (cs @ [(r, m)]) rs pool1 = Inr (cs', pool')"
      by (auto split: sum.splits)
    from get_close_matches_head [OF cm] Cons.prems(3) have "m \<in> set N" by auto
    with Cons.prems(4) r have inv: "\<forall>c \<in> set (cs @ [(r, m)]). from_names N c"
      by (simp add: from_names_def)
    from list_remove_set [OF rm] Cons.prems(3) have "set pool1 \<subseteq> set N" by auto
    from Cons.IH [OF run rs this inv] show ?thesis .
  qed
qed

lemma process_diff_lines_from:
  assumes "process_diff_lines stdin cs ms ps = Inr (cs', stdin')"
    and "known_lines N ms" and "known_lines N ps" and "\<forall>c \<in> set cs. from_names N c"
  shows "\<forall>c \<in> set cs'. from_names N c"
proof -
  consider (eq) "length ms = length ps"
    | (new) "length ms \<noteq> length ps" "length ms = 0"
    | (del) "length ms \<noteq> length ps" "length ms \<noteq> 0" "length ps = 0"
    | (mixed) "length ms \<noteq> length ps" "length ms \<noteq> 0" "length ps \<noteq> 0"
    by blast
  then show ?thesis
  proof cases
    case eq
    with assms(1) have "pair_positional cs ms ps = Inr cs'"
      by (auto simp: process_diff_lines_def split: sum.splits)
    from pair_positional_from [OF this assms(2) assms(3) assms(4)] show ?thesis .
  next
    case new
    with assms(1) have "new_names_only cs ps = Inr cs'"
      by (auto simp: process_diff_lines_def split: sum.splits)
    from new_names_only_from [OF this assms(3) assms(4)] show ?thesis .
  next
    case del
    with assms(1) have "deleted_names_only cs ms = Inr cs'"
      by (auto simp: process_diff_lines_def split: sum.splits)
    from deleted_names_only_from [OF this assms(2) assms(4)] show ?thesis .
  next
    case mixed
    with assms(1) obtain rs pool cs1 pool1 where
      rs: "potential_names [] ms = Inr rs" and pool: "potential_names [] ps = Inr pool"
      and run: "match_removals cs rs pool = Inr (cs1, pool1)"
      and res: "cs' = cs1 @ map (\<lambda>x. ([], x)) pool1"
      by (auto simp: process_diff_lines_def INTERACTIVE_def split: sum.splits)
    from potential_names_from [OF rs assms(2)] have r0: "set rs \<subseteq> set N" by simp
    from potential_names_from [OF pool assms(3)] have a0: "set pool \<subseteq> set N" by simp
    from match_removals_from [OF run r0 a0 assms(4)] res show ?thesis
      by (auto simp: from_names_def)
  qed
qed

lemma diff_loop_from:
  "diff_loop stdin cs ms ps ls = Inr (cs', ms', ps', stdin') \<Longrightarrow> known_lines N (map lower ls)
     \<Longrightarrow> known_lines N ms \<Longrightarrow> known_lines N ps \<Longrightarrow> \<forall>c \<in> set cs. from_names N c
     \<Longrightarrow> (\<forall>c \<in> set cs'. from_names N c) \<and> known_lines N ms' \<and> known_lines N ps'"
proof (induction ls arbitrary: stdin cs ms ps)
  case Nil
  then show ?case by simp
next
  case (Cons l ls)
  from Cons.prems(2) have here: "known_lines N [lower l]"
    and rest: "known_lines N (map lower ls)"
    by (simp_all add: known_lines_simps)
  show ?case
  proof (cases "substring_in ''@@'' (lower l)")
    case True
    with Cons.prems(1) obtain cs1 stdin1 where
      p: "process_diff_lines stdin cs ms ps = Inr (cs1, stdin1)"
      and run: "diff_loop stdin1 cs1 [] [] ls = Inr (cs', ms', ps', stdin')"
      by (auto simp: Let_def split: sum.splits)
    from process_diff_lines_from [OF p Cons.prems(3) Cons.prems(4) Cons.prems(5)]
    have "\<forall>c \<in> set cs1. from_names N c" .
    from Cons.IH [OF run rest _ _ this] show ?thesis by (simp add: known_lines_simps)
  next
    case False
    show ?thesis
    proof (cases "lower l")
      case Nil
      with False Cons.prems(1) show ?thesis by (simp add: Let_def)
    next
      case lc: (Cons c rest')
      consider (minus) "c = CHR ''-''" | (plus) "c \<noteq> CHR ''-''" "c = CHR ''+''"
        | (other) "c \<noteq> CHR ''-''" "c \<noteq> CHR ''+''" by blast
      then show ?thesis
      proof cases
        case minus
        with False lc Cons.prems(1)
        have run: "diff_loop stdin cs (ms @ [lower l]) ps ls = Inr (cs', ms', ps', stdin')"
          by (simp add: Let_def del: substring_in.simps)
        from Cons.prems(3) here have "known_lines N (ms @ [lower l])"
          by (simp add: known_lines_simps)
        from Cons.IH [OF run rest this Cons.prems(4) Cons.prems(5)] show ?thesis .
      next
        case plus
        with False lc Cons.prems(1)
        have run: "diff_loop stdin cs ms (ps @ [lower l]) ls = Inr (cs', ms', ps', stdin')"
          by (simp add: Let_def del: substring_in.simps)
        from Cons.prems(4) here have "known_lines N (ps @ [lower l])"
          by (simp add: known_lines_simps)
        from Cons.IH [OF run rest Cons.prems(3) this Cons.prems(5)] show ?thesis .
      next
        case other
        with False lc Cons.prems(1)
        have run: "diff_loop stdin cs ms ps ls = Inr (cs', ms', ps', stdin')"
          by (simp add: Let_def del: substring_in.simps)
        from Cons.IH [OF run rest Cons.prems(3) Cons.prems(4) Cons.prems(5)] show ?thesis .
      qed
    qed
  qed
qed

lemma first_pass_from:
  assumes "first_pass stdin diff_lines = Inr cs"
  shows "\<forall>c \<in> set cs. from_names (lowered_names diff_lines) c"
proof -
  let ?N = "lowered_names diff_lines"
  from assms obtain cs1 ms ps stdin1 stdin2 where
    loop: "diff_loop stdin [] [] [] diff_lines = Inr (cs1, ms, ps, stdin1)"
    and last: "process_diff_lines stdin1 cs1 ms ps = Inr (cs, stdin2)"
    by (auto simp: first_pass_def split: sum.splits)
  have "known_lines ?N (map lower diff_lines)"
    using lowered_line_known [of _ diff_lines] by (auto simp: known_lines_def)
  from diff_loop_from [OF loop this]
  have "(\<forall>c \<in> set cs1. from_names ?N c) \<and> known_lines ?N ms \<and> known_lines ?N ps"
    by (simp add: known_lines_simps)
  with process_diff_lines_from [OF last] show ?thesis by blast
qed

lemma close_match_orig_from:
  "close_match_orig cs m = Inr orig \<Longrightarrow> \<forall>c \<in> set cs. from_names N c
     \<Longrightarrow> orig = [] \<or> orig \<in> set N"
proof -
  assume a: "close_match_orig cs m = Inr orig" and inv: "\<forall>c \<in> set cs. from_names N c"
  from a obtain others where "map fst [x \<leftarrow> cs. snd x = m] = orig # others"
    by (auto simp: close_match_orig_def split: list.splits)
  then have "orig \<in> set (map fst [x \<leftarrow> cs. snd x = m])" by simp
  then obtain x where "x \<in> set cs" "orig = fst x" by auto
  with inv show ?thesis by (auto simp: from_names_def)
qed

lemma sweep_replacements_from:
  "sweep_replacements nm_new repl_new rs cs = Inr cs' \<Longrightarrow> set nm_new \<subseteq> set N
     \<Longrightarrow> \<forall>r \<in> set rs. from_names N r \<Longrightarrow> \<forall>c \<in> set cs. from_names N c
     \<Longrightarrow> \<forall>c \<in> set cs'. from_names N c"
proof (induction rs arbitrary: cs)
  case Nil
  then show ?case by simp
next
  case (Cons r rs)
  from Cons.prems(3) have r: "from_names N r" and rs: "\<forall>r \<in> set rs. from_names N r"
    by simp_all
  show ?case
  proof (cases "get_close_matches (fst r) nm_new 1 GET_CLOSE_MATCHES_SECOND_PASS_CUTOFF")
    case Nil
    with Cons.prems(1) have "sweep_replacements nm_new repl_new rs cs = Inr cs'" by simp
    from Cons.IH [OF this Cons.prems(2) rs Cons.prems(4)] show ?thesis .
  next
    case cm: (Cons m ms)
    from get_close_matches_head [OF cm] Cons.prems(2) have m: "m \<in> set N" by auto
    show ?thesis
    proof (cases "get_close_matches (fst r) [snd r, m] 2 zero_cutoff")
      case Nil
      with cm Cons.prems(1) show ?thesis by simp
    next
      case order: (Cons b bs)
      show ?thesis
      proof (cases "b = m")
        case False
        with cm order Cons.prems(1) have "sweep_replacements nm_new repl_new rs cs = Inr cs'"
          by simp
        from Cons.IH [OF this Cons.prems(2) rs Cons.prems(4)] show ?thesis .
      next
        case True
        with cm order Cons.prems(1) obtain cs1 where rm: "list_remove r cs = Inr cs1"
          by (auto split: sum.splits)
        from list_remove_set [OF rm] Cons.prems(4) r
        have inv1: "\<forall>c \<in> set (cs1 @ [([], snd r)]). from_names N c"
          by (auto simp: from_names_def)
        show ?thesis
        proof (cases "m \<notin> set repl_new")
          case fresh: True
          with True cm order rm Cons.prems(1)
          have run: "sweep_replacements nm_new repl_new rs (cs1 @ [([], snd r)] @ [(fst r, m)]) = Inr cs'"
            by simp
          from inv1 r m have "\<forall>c \<in> set (cs1 @ [([], snd r)] @ [(fst r, m)]). from_names N c"
            by (auto simp: from_names_def)
          from Cons.IH [OF run Cons.prems(2) rs this] show ?thesis .
        next
          case False
          with True cm order rm Cons.prems(1) obtain orig where
            orig: "close_match_orig (cs1 @ [([], snd r)]) m = Inr orig"
            and run: "sweep_replacements nm_new repl_new rs
                (cs1 @ [([], snd r)] @ [(orig, [])] @ [(fst r, m)]) = Inr cs'"
            by (auto split: sum.splits)
          from close_match_orig_from [OF orig inv1] inv1 r m
          have "\<forall>c \<in> set (cs1 @ [([], snd r)] @ [(orig, [])] @ [(fst r, m)]). from_names N c"
            by (auto simp: from_names_def)
          from Cons.IH [OF run Cons.prems(2) rs this] show ?thesis .
        qed
      qed
    qed
  qed
qed

lemma sweep_deletions_from:
  "sweep_deletions nm_new repl_new ds cs = Inr cs' \<Longrightarrow> set nm_new \<subseteq> set N
     \<Longrightarrow> set ds \<subseteq> set N \<Longrightarrow> \<forall>c \<in> set cs. from_names N c
     \<Longrightarrow> \<forall>c \<in> set cs'. from_names N c"
proof (induction ds arbitrary: cs)
  case Nil
  then show ?case by simp
next
  case (Cons d ds)
  from Cons.prems(3) have dN: "d \<in> set N" and ds: "set ds \<subseteq> set N" by auto
  show ?case
  proof (cases d)
    case Nil
    with Cons.prems(1) show ?thesis by simp
  next
    case d: (Cons d0 d_rest)
    show ?thesis
    proof (cases "get_close_matches [d0] nm_new 1 GET_CLOSE_MATCHES_SECOND_PASS_CUTOFF")
      case Nil
      with d Cons.prems(1) have "sweep_deletions nm_new repl_new ds cs = Inr cs'" by simp
      from Cons.IH [OF this Cons.prems(2) ds Cons.prems(4)] show ?thesis .
    next
      case cm: (Cons m ms)
      from get_close_matches_head [OF cm] Cons.prems(2) have m: "m \<in> set N" by auto
      show ?thesis
      proof (cases "m \<notin> set repl_new")
        case True
        with d cm Cons.prems(1) obtain cs1 cs2 where rm1: "list_remove (d, []) cs = Inr cs1"
          and rm2: "list_remove ([], m) cs1 = Inr cs2"
          and run: "sweep_deletions nm_new repl_new ds (cs2 @ [(d, m)]) = Inr cs'"
          by (auto split: sum.splits)
        from list_remove_set [OF rm1] list_remove_set [OF rm2] Cons.prems(4) dN m
        have "\<forall>c \<in> set (cs2 @ [(d, m)]). from_names N c"
          by (auto simp: from_names_def)
        from Cons.IH [OF run Cons.prems(2) ds this] show ?thesis .
      next
        case False
        with d cm Cons.prems(1) have "sweep_deletions nm_new repl_new ds cs = Inr cs'"
          by (auto split: sum.splits list.splits if_splits)
        from Cons.IH [OF this Cons.prems(2) ds Cons.prems(4)] show ?thesis .
      qed
    qed
  qed
qed

lemma second_pass_from:
  assumes "second_pass cs = Inr cs'" and "\<forall>c \<in> set cs. from_names N c"
  shows "\<forall>c \<in> set cs'. from_names N c"
proof -
  have lists: "set (std_nm_new xs) \<subseteq> set N \<and> set (std_nm_deletions xs) \<subseteq> set N
      \<and> (\<forall>r \<in> set (std_nm_replacements xs). from_names N r)"
    if "\<forall>c \<in> set xs. from_names N c" for xs
    using that
    by (auto simp: std_nm_new_def std_nm_deletions_def std_nm_replacements_def from_names_def
        truthy_def)
  from assms(1) obtain cs1 where
    s1: "sweep_replacements (std_nm_new cs) (map snd (std_nm_replacements cs))
           (std_nm_replacements cs) cs = Inr cs1"
    and s2: "sweep_deletions (std_nm_new cs1) (map snd (std_nm_replacements cs1))
           (std_nm_deletions cs1) cs1 = Inr cs'"
    by (auto simp: second_pass_def split: sum.splits)
  from lists [OF assms(2)] sweep_replacements_from [OF s1 _ _ assms(2)]
  have c1: "\<forall>c \<in> set cs1. from_names N c" by blast
  from lists [OF c1] sweep_deletions_from [OF s2 _ _ c1] show ?thesis by blast
qed

text \<open>
  C8 (as amended). Marker matching is case-insensitive and the extracted name is
  lowercased: find\_changed\_vars returns on a diff what it returns on the diff with
  every line lowercased, and every field of every record it returns is empty or is the
  lowercased text between the first two double quotes of a line of the diff whose
  lowercased form holds the marker.
\<close>

theorem record_names_are_lowercased:
  assumes "find_changed_vars stdin diff_lines = Inr (std_name_changes, counts)"
  shows "find_changed_vars stdin (map lower diff_lines) = Inr (std_name_changes, counts) \<and>
         (\<forall>c \<in> set std_name_changes. from_names (lowered_names diff_lines) c)"
proof -
  have "find_changed_vars stdin (map lower diff_lines) = find_changed_vars stdin diff_lines"
    by (simp add: find_changed_vars_def first_pass_def diff_loop_lower)
  moreover from assms obtain cs where fp: "first_pass stdin diff_lines = Inr cs"
    and sp: "second_pass cs = Inr std_name_changes"
    by (auto simp: find_changed_vars_def split: sum.splits)
  from second_pass_from [OF sp first_pass_from [OF fp]]
  have "\<forall>c \<in> set std_name_changes. from_names (lowered_names diff_lines) c" .
  ultimately show ?thesis using assms by simp
qed

theorem record_names_are_lowercased_witness:
  "find_changed_vars []
     (map lower
       [''--- old.xml'', ''+++ new.xml'', ''@@ -1,2 +1,2 @@'',
        CHR ''-'' # ''<STANDARD_NAME Name='' @ [dquote] @ ''Aa'' @ [dquote] @ ''>'' @ [CHR 0x0A],
        CHR ''-'' # declaration_line ''Bb'',
        CHR ''+'' # declaration_line ''Bb2'',
        CHR ''+'' # ''<Standard_Name NAME='' @ [dquote] @ ''AA2'' @ [dquote] @ ''>'' @ [CHR 0x0A]])
   = Inr ([(''aa'', ''bb2''), (''bb'', ''aa2'')], 2, 0, 0) \<and>
   list_all
     (from_names (lowered_names
       [''--- old.xml'', ''+++ new.xml'', ''@@ -1,2 +1,2 @@'',
        CHR ''-'' # ''<STANDARD_NAME Name='' @ [dquote] @ ''Aa'' @ [dquote] @ ''>'' @ [CHR 0x0A],
        CHR ''-'' # declaration_line ''Bb'',
        CHR ''+'' # declaration_line ''Bb2'',
        CHR ''+'' # ''<Standard_Name NAME='' @ [dquote] @ ''AA2'' @ [dquote] @ ''>'' @ [CHR 0x0A]]))
     [(''aa'', ''bb2''), (''bb'', ''aa2'')] \<and>
   lowered_names
       [''--- old.xml'', ''+++ new.xml'', ''@@ -1,2 +1,2 @@'',
        CHR ''-'' # ''<STANDARD_NAME Name='' @ [dquote] @ ''Aa'' @ [dquote] @ ''>'' @ [CHR 0x0A],
        CHR ''-'' # declaration_line ''Bb'',
        CHR ''+'' # declaration_line ''Bb2'',
        CHR ''+'' # ''<Standard_Name NAME='' @ [dquote] @ ''AA2'' @ [dquote] @ ''>'' @ [CHR 0x0A]]
   = [''aa'', ''bb'', ''bb2'', ''aa2'']"
proof -
  let ?D = "[''--- old.xml'', ''+++ new.xml'', ''@@ -1,2 +1,2 @@'',
        CHR ''-'' # ''<STANDARD_NAME Name='' @ [dquote] @ ''Aa'' @ [dquote] @ ''>'' @ [CHR 0x0A],
        CHR ''-'' # declaration_line ''Bb'',
        CHR ''+'' # declaration_line ''Bb2'',
        CHR ''+'' # ''<Standard_Name NAME='' @ [dquote] @ ''AA2'' @ [dquote] @ ''>'' @ [CHR 0x0A]]"
  have h: "find_changed_vars [] ?D = Inr ([(''aa'', ''bb2''), (''bb'', ''aa2'')], 2, 0, 0)"
    by code_simp
  have n: "lowered_names ?D = [''aa'', ''bb'', ''bb2'', ''aa2'']"
    by code_simp
  from record_names_are_lowercased [OF h] n show ?thesis
    by (simp only: list_all_iff) simp
qed

section \<open>The automatic pairing of a mismatched hunk\<close>

lemma score_less_real:
  "0 < snd s \<Longrightarrow> 0 < snd t \<Longrightarrow>
     score_less s t \<longleftrightarrow> real (fst s) / real (snd s) < real (fst t) / real (snd t)"
proof -
  assume pos: "0 < snd s" "0 < snd t"
  have "real (fst s) / real (snd s) < real (fst t) / real (snd t)
      \<longleftrightarrow> real (fst s) * real (snd t) < real (fst t) * real (snd s)"
    using pos by (simp add: field_simps)
  also have "\<dots> \<longleftrightarrow> fst s * snd t < fst t * snd s"
    by (simp only: of_nat_mult [symmetric] of_nat_less_iff)
  finally show ?thesis by (simp add: score_less_def)
qed

lemma str_less_lex: "str_less x y \<longleftrightarrow> (map of_char x :: nat list) < map of_char y"
  by (induction x y rule: str_less.induct) auto

lemma entry_less_key:
  assumes "0 < snd (fst e)" and "0 < snd (fst f)"
  shows "entry_less e f \<longleftrightarrow> entry_key e < entry_key f"
  unfolding entry_less_def entry_key_def less_prod_simp str_less_lex
    score_less_real [OF assms] score_less_real [OF assms(2) assms(1)]
  by auto


lemma ratio_denominator: "0 < snd (ratio a b)"
  by (simp add: ratio_def calculate_ratio_def)

lemma entry_less_of:
  "entry_less (entry_of w x) (entry_of w y) \<longleftrightarrow> entry_key (entry_of w x) < entry_key (entry_of w y)"
  by (rule entry_less_key) (simp_all add: entry_of_def ratio_denominator)




lemma best_candidate_max:
  "best_candidate w b xs \<in> set (b # xs) \<and>
   (\<forall>x \<in> set (b # xs). entry_key (entry_of w x) \<le> entry_key (entry_of w (best_candidate w b xs)))"
proof (induction xs arbitrary: b)
  case Nil
  show ?case by simp
next
  case (Cons x xs)
  let ?b = "if entry_less (ratio b w, b) (ratio x w, x) then x else b"
  from entry_less_of [of w b x]
  have b: "entry_key (entry_of w b) \<le> entry_key (entry_of w ?b)"
    and x: "entry_key (entry_of w x) \<le> entry_key (entry_of w ?b)"
    by (auto simp: entry_of_def)
  from Cons.IH [of ?b] have m: "best_candidate w ?b xs \<in> set (?b # xs)"
    and ub: "\<forall>y \<in> set (?b # xs). entry_key (entry_of w y)
        \<le> entry_key (entry_of w (best_candidate w ?b xs))"
    by blast+
  from ub have top: "entry_key (entry_of w ?b) \<le> entry_key (entry_of w (best_candidate w ?b xs))"
    by simp
  have "best_candidate w b (x # xs) = best_candidate w ?b xs" by simp
  moreover from m have "best_candidate w ?b xs \<in> set (b # x # xs)" by auto
  moreover from ub b x top
  have "\<forall>y \<in> set (b # x # xs). entry_key (entry_of w y)
        \<le> entry_key (entry_of w (best_candidate w ?b xs))"
    by (auto intro: order_trans)
  ultimately show ?case by simp
qed


lemma best_match_clears_cutoff:
  assumes "best_match word pool cutoff = Some m"
  shows "m \<in> set pool \<and> score_le cutoff (ratio m word) \<and>
         (\<forall>x \<in> set pool. score_le cutoff (ratio x word) \<longrightarrow> \<not> score_less (ratio m word) (ratio x word))"
proof -
  from assms obtain c cs where f: "[x \<leftarrow> pool. score_le cutoff (ratio x word)] = c # cs"
    and m: "m = best_candidate word c cs"
    by (auto simp: best_match_def split: list.splits)
  from best_candidate_max [of word c cs] m f
  have in_f: "m \<in> set [x \<leftarrow> pool. score_le cutoff (ratio x word)]"
    and top: "\<forall>x \<in> set [x \<leftarrow> pool. score_le cutoff (ratio x word)].
        entry_key (entry_of word x) \<le> entry_key (entry_of word m)"
    by simp_all
  have "\<not> score_less (ratio m word) (ratio x word)"
    if "x \<in> set pool" and "score_le cutoff (ratio x word)" for x
  proof
    assume "score_less (ratio m word) (ratio x word)"
    then have "entry_less (entry_of word m) (entry_of word x)"
      by (simp add: entry_less_def entry_of_def)
    then have "entry_key (entry_of word m) < entry_key (entry_of word x)"
      by (simp add: entry_less_of)
    with top that show False by auto
  qed
  with in_f show ?thesis by auto
qed

lemma best_match_none:
  "best_match word pool cutoff = None \<longleftrightarrow> (\<forall>x \<in> set pool. \<not> score_le cutoff (ratio x word))"
proof -
  have "best_match word pool cutoff = None \<longleftrightarrow> [x \<leftarrow> pool. score_le cutoff (ratio x word)] = []"
    by (simp add: best_match_def split: list.splits)
  then show ?thesis by (simp add: filter_empty_conv)
qed





end
